theory Spec2Isabelle
  imports Complex_Main "HOL-Library.Word"
begin

unbundle bit_operations_syntax

section \<open>Bytes and bits\<close>

text \<open>
  The driver lives in \<^verbatim>\<open>linx.py\<close>. A Python \<^verbatim>\<open>bytes\<close> or \<^verbatim>\<open>bytearray\<close> value is a list of
  8-bit words; Python's unbounded integers are \<^typ>\<open>int\<close>.
\<close>

type_synonym byte = "8 word"

text \<open>The eight bits of a byte, most significant first, and back.\<close>

definition bits_of_byte :: "byte \<Rightarrow> bool list" where
  "bits_of_byte b = map (\<lambda>i. bit b (7 - i)) [0..<8]"

definition byte_of_bits :: "bool list \<Rightarrow> byte" where
  "byte_of_bits bs = horner_sum of_bool 2 (rev bs)"

definition bits_of_bytes :: "byte list \<Rightarrow> bool list" where
  "bits_of_bytes bs = concat (map bits_of_byte bs)"

fun bytes_of_bits :: "bool list \<Rightarrow> byte list" where
  "bytes_of_bits (b0 # b1 # b2 # b3 # b4 # b5 # b6 # b7 # rest) =
     byte_of_bits [b0, b1, b2, b3, b4, b5, b6, b7] # bytes_of_bits rest"
| "bytes_of_bits _ = []"

definition xor_bits :: "bool list \<Rightarrow> bool list \<Rightarrow> bool list" where
  "xor_bits a b = map2 (\<noteq>) a b"

definition xor_bytes :: "byte list \<Rightarrow> byte list \<Rightarrow> byte list" where
  "xor_bytes a b = map2 (XOR) a b"

section \<open>The DES block cipher of the Crypto library\<close>

text \<open>
  \<^verbatim>\<open>_des_encrypt\<close> calls \<^verbatim>\<open>DES.new(DES_KEY, DES.MODE_CBC, iv=DES_KEY)\<close> of the
  Crypto library (pycryptodome). The library is not part of the repository; what it computes is the
  Data Encryption Standard (FIPS 46-3) in cipher block chaining mode. The tables below are
  those of the standard, numbered from 1 with bit 1 the most significant bit of the first
  byte.
\<close>

definition IP :: "nat list" where
  "IP =
    [58, 50, 42, 34, 26, 18, 10, 2,
     60, 52, 44, 36, 28, 20, 12, 4,
     62, 54, 46, 38, 30, 22, 14, 6,
     64, 56, 48, 40, 32, 24, 16, 8,
     57, 49, 41, 33, 25, 17, 9, 1,
     59, 51, 43, 35, 27, 19, 11, 3,
     61, 53, 45, 37, 29, 21, 13, 5,
     63, 55, 47, 39, 31, 23, 15, 7]"

definition FP :: "nat list" where
  "FP =
    [40, 8, 48, 16, 56, 24, 64, 32,
     39, 7, 47, 15, 55, 23, 63, 31,
     38, 6, 46, 14, 54, 22, 62, 30,
     37, 5, 45, 13, 53, 21, 61, 29,
     36, 4, 44, 12, 52, 20, 60, 28,
     35, 3, 43, 11, 51, 19, 59, 27,
     34, 2, 42, 10, 50, 18, 58, 26,
     33, 1, 41, 9, 49, 17, 57, 25]"

definition E_table :: "nat list" where
  "E_table =
    [32, 1, 2, 3, 4, 5,
     4, 5, 6, 7, 8, 9,
     8, 9, 10, 11, 12, 13,
     12, 13, 14, 15, 16, 17,
     16, 17, 18, 19, 20, 21,
     20, 21, 22, 23, 24, 25,
     24, 25, 26, 27, 28, 29,
     28, 29, 30, 31, 32, 1]"

definition P_table :: "nat list" where
  "P_table =
    [16, 7, 20, 21, 29, 12, 28, 17,
     1, 15, 23, 26, 5, 18, 31, 10,
     2, 8, 24, 14, 32, 27, 3, 9,
     19, 13, 30, 6, 22, 11, 4, 25]"

definition PC1 :: "nat list" where
  "PC1 =
    [57, 49, 41, 33, 25, 17, 9,
     1, 58, 50, 42, 34, 26, 18,
     10, 2, 59, 51, 43, 35, 27,
     19, 11, 3, 60, 52, 44, 36,
     63, 55, 47, 39, 31, 23, 15,
     7, 62, 54, 46, 38, 30, 22,
     14, 6, 61, 53, 45, 37, 29,
     21, 13, 5, 28, 20, 12, 4]"

definition PC2 :: "nat list" where
  "PC2 =
    [14, 17, 11, 24, 1, 5,
     3, 28, 15, 6, 21, 10,
     23, 19, 12, 4, 26, 8,
     16, 7, 27, 20, 13, 2,
     41, 52, 31, 37, 47, 55,
     30, 40, 51, 45, 33, 48,
     44, 49, 39, 56, 34, 53,
     46, 42, 50, 36, 29, 32]"

definition SHIFTS :: "nat list" where
  "SHIFTS =
    [1, 1, 2, 2, 2, 2, 2, 2, 1, 2, 2, 2, 2, 2, 2, 1]"

definition S1 :: "nat list" where
  "S1 =
    [14, 4, 13, 1, 2, 15, 11, 8, 3, 10, 6, 12, 5, 9, 0, 7,
     0, 15, 7, 4, 14, 2, 13, 1, 10, 6, 12, 11, 9, 5, 3, 8,
     4, 1, 14, 8, 13, 6, 2, 11, 15, 12, 9, 7, 3, 10, 5, 0,
     15, 12, 8, 2, 4, 9, 1, 7, 5, 11, 3, 14, 10, 0, 6, 13]"

definition S2 :: "nat list" where
  "S2 =
    [15, 1, 8, 14, 6, 11, 3, 4, 9, 7, 2, 13, 12, 0, 5, 10,
     3, 13, 4, 7, 15, 2, 8, 14, 12, 0, 1, 10, 6, 9, 11, 5,
     0, 14, 7, 11, 10, 4, 13, 1, 5, 8, 12, 6, 9, 3, 2, 15,
     13, 8, 10, 1, 3, 15, 4, 2, 11, 6, 7, 12, 0, 5, 14, 9]"

definition S3 :: "nat list" where
  "S3 =
    [10, 0, 9, 14, 6, 3, 15, 5, 1, 13, 12, 7, 11, 4, 2, 8,
     13, 7, 0, 9, 3, 4, 6, 10, 2, 8, 5, 14, 12, 11, 15, 1,
     13, 6, 4, 9, 8, 15, 3, 0, 11, 1, 2, 12, 5, 10, 14, 7,
     1, 10, 13, 0, 6, 9, 8, 7, 4, 15, 14, 3, 11, 5, 2, 12]"

definition S4 :: "nat list" where
  "S4 =
    [7, 13, 14, 3, 0, 6, 9, 10, 1, 2, 8, 5, 11, 12, 4, 15,
     13, 8, 11, 5, 6, 15, 0, 3, 4, 7, 2, 12, 1, 10, 14, 9,
     10, 6, 9, 0, 12, 11, 7, 13, 15, 1, 3, 14, 5, 2, 8, 4,
     3, 15, 0, 6, 10, 1, 13, 8, 9, 4, 5, 11, 12, 7, 2, 14]"

definition S5 :: "nat list" where
  "S5 =
    [2, 12, 4, 1, 7, 10, 11, 6, 8, 5, 3, 15, 13, 0, 14, 9,
     14, 11, 2, 12, 4, 7, 13, 1, 5, 0, 15, 10, 3, 9, 8, 6,
     4, 2, 1, 11, 10, 13, 7, 8, 15, 9, 12, 5, 6, 3, 0, 14,
     11, 8, 12, 7, 1, 14, 2, 13, 6, 15, 0, 9, 10, 4, 5, 3]"

definition S6 :: "nat list" where
  "S6 =
    [12, 1, 10, 15, 9, 2, 6, 8, 0, 13, 3, 4, 14, 7, 5, 11,
     10, 15, 4, 2, 7, 12, 9, 5, 6, 1, 13, 14, 0, 11, 3, 8,
     9, 14, 15, 5, 2, 8, 12, 3, 7, 0, 4, 10, 1, 13, 11, 6,
     4, 3, 2, 12, 9, 5, 15, 10, 11, 14, 1, 7, 6, 0, 8, 13]"

definition S7 :: "nat list" where
  "S7 =
    [4, 11, 2, 14, 15, 0, 8, 13, 3, 12, 9, 7, 5, 10, 6, 1,
     13, 0, 11, 7, 4, 9, 1, 10, 14, 3, 5, 12, 2, 15, 8, 6,
     1, 4, 11, 13, 12, 3, 7, 14, 10, 15, 6, 8, 0, 5, 9, 2,
     6, 11, 13, 8, 1, 4, 10, 7, 9, 5, 0, 15, 14, 2, 3, 12]"

definition S8 :: "nat list" where
  "S8 =
    [13, 2, 8, 4, 6, 15, 11, 1, 10, 9, 3, 14, 5, 0, 12, 7,
     1, 15, 13, 8, 10, 3, 7, 4, 12, 5, 6, 11, 0, 14, 9, 2,
     7, 11, 4, 1, 9, 12, 14, 2, 0, 6, 10, 13, 15, 3, 5, 8,
     2, 1, 14, 7, 4, 10, 8, 13, 15, 12, 9, 0, 3, 5, 6, 11]"

definition SBOXES :: "nat list list" where
  "SBOXES = [S1, S2, S3, S4, S5, S6, S7, S8]"

definition permute :: "nat list \<Rightarrow> bool list \<Rightarrow> bool list" where
  "permute tbl bits = map (\<lambda>i. bits ! (i - 1)) tbl"

definition rotl :: "nat \<Rightarrow> bool list \<Rightarrow> bool list" where
  "rotl n xs = drop n xs @ take n xs"

fun key_rounds :: "nat list \<Rightarrow> bool list \<Rightarrow> bool list \<Rightarrow> bool list list" where
  "key_rounds [] c d = []"
| "key_rounds (s # ss) c d =
     (let c' = rotl s c; d' = rotl s d
      in permute PC2 (c' @ d') # key_rounds ss c' d')"

definition subkeys :: "byte list \<Rightarrow> bool list list" where
  "subkeys key =
     (let k = permute PC1 (bits_of_bytes key)
      in key_rounds SHIFTS (take 28 k) (drop 28 k))"

definition nibble :: "nat \<Rightarrow> bool list" where
  "nibble v = [odd (v div 8), odd (v div 4), odd (v div 2), odd v]"

definition sbox :: "nat list \<Rightarrow> bool list \<Rightarrow> bool list" where
  "sbox tbl b =
     (let row = 2 * of_bool (b ! 0) + of_bool (b ! 5);
          col = 8 * of_bool (b ! 1) + 4 * of_bool (b ! 2) + 2 * of_bool (b ! 3) + of_bool (b ! 4)
      in nibble (tbl ! (16 * row + col)))"

definition f_des :: "bool list \<Rightarrow> bool list \<Rightarrow> bool list" where
  "f_des r k =
     (let x = xor_bits (permute E_table r) k
      in permute P_table
           (concat (map (\<lambda>i. sbox (SBOXES ! i) (take 6 (drop (6 * i) x))) [0..<8])))"

fun rounds :: "bool list list \<Rightarrow> bool list \<times> bool list \<Rightarrow> bool list \<times> bool list" where
  "rounds [] lr = lr"
| "rounds (k # ks) (l, r) = rounds ks (r, xor_bits l (f_des r k))"

definition des_block :: "bool list list \<Rightarrow> byte list \<Rightarrow> byte list" where
  "des_block ks blk =
     (let x = permute IP (bits_of_bytes blk);
          (l, r) = rounds ks (take 32 x, drop 32 x)
      in bytes_of_bits (permute FP (r @ l)))"

definition des_encrypt_block :: "byte list \<Rightarrow> byte list \<Rightarrow> byte list" where
  "des_encrypt_block key = des_block (subkeys key)"

definition des_decrypt_block :: "byte list \<Rightarrow> byte list \<Rightarrow> byte list" where
  "des_decrypt_block key = des_block (rev (subkeys key))"

text \<open>
  Cipher block chaining over whole 8-byte blocks: each plaintext block is xored with the
  previous ciphertext block (the IV for the first) and then enciphered.
\<close>

function cbc_encrypt :: "(byte list \<Rightarrow> byte list) \<Rightarrow> byte list \<Rightarrow> byte list \<Rightarrow> byte list" where
  "cbc_encrypt enc prev data =
     (if data = [] then []
      else let c = enc (xor_bytes (take 8 data) prev)
           in c @ cbc_encrypt enc c (drop 8 data))"
  by pat_completeness auto
termination
  by (relation "measure (\<lambda>(enc, prev, data). length data)") auto

function cbc_decrypt :: "(byte list \<Rightarrow> byte list) \<Rightarrow> byte list \<Rightarrow> byte list \<Rightarrow> byte list" where
  "cbc_decrypt dec prev data =
     (if data = [] then []
      else let c = take 8 data
           in xor_bytes (dec c) prev @ cbc_decrypt dec c (drop 8 data))"
  by pat_completeness auto
termination
  by (relation "measure (\<lambda>(dec, prev, data). length data)") auto

section \<open>Encryption helpers\<close>

text \<open>\<^verbatim>\<open>DES_KEY = b'slv3tuzx'\<close>: key and IV are the same eight ASCII bytes.\<close>

definition DES_KEY :: "byte list" where
  "DES_KEY = [115, 108, 118, 51, 116, 117, 122, 120]"

text \<open>
  \<^verbatim>\<open>_ts()\<close> is \<^verbatim>\<open>int((time.time() - _start_time) * 1000) & 0xFFFFFFFF\<close>. The reading of
  the clock, already converted to whole milliseconds, is the argument \<open>now_ms\<close>.
\<close>

definition ts :: "int \<Rightarrow> int" where
  "ts now_ms = now_ms AND 0xFFFFFFFF"

text \<open>\<^verbatim>\<open>_des_encrypt\<close>: PKCS7 padding, then DES-CBC with key = IV = \<^verbatim>\<open>DES_KEY\<close>.\<close>

definition des_encrypt :: "byte list \<Rightarrow> byte list" where
  "des_encrypt data =
     (let pad_len = 8 - length data mod 8
      in cbc_encrypt (des_encrypt_block DES_KEY) DES_KEY
           (data @ replicate pad_len (of_nat pad_len)))"

text \<open>\<^verbatim>\<open>struct.pack_into('<I', buf, offset, v)\<close>: four bytes, least significant first.\<close>

definition pack_u32_le :: "int \<Rightarrow> byte list" where
  "pack_u32_le v = map (\<lambda>k. word_of_int (drop_bit (8 * k) v)) [0, 1, 2, 3]"

definition pack_into :: "byte list \<Rightarrow> nat \<Rightarrow> byte list \<Rightarrow> byte list" where
  "pack_into buf off bs = take off buf @ bs @ drop (off + length bs) buf"

text \<open>
  The loop \<^verbatim>\<open>for i, b in enumerate(data_at_8): if 8 + i < 500: buf[8 + i] = b\<close>.
\<close>

definition fill_args :: "byte list \<Rightarrow> byte list \<Rightarrow> byte list" where
  "fill_args buf data =
     foldl (\<lambda>b (i, x). if 8 + i < 500 then b[8 + i := x] else b) buf (enumerate 0 data)"

text \<open>
  The 500-byte buffer of \<^verbatim>\<open>_make_header\<close> before encryption. \<^verbatim>\<open>if data_at_8:\<close> is false
  for \<^verbatim>\<open>None\<close> and for the empty byte string.
\<close>

definition header_plain :: "int \<Rightarrow> int \<Rightarrow> byte list option \<Rightarrow> byte list" where
  "header_plain now_ms cmd data_at_8 =
     (let buf = replicate 500 0;
          buf = buf[0 := word_of_int (cmd AND 0xFF)];
          buf = buf[2 := 0x1A];
          buf = buf[3 := 0x6D];
          buf = pack_into buf 4 (pack_u32_le (ts now_ms))
      in case data_at_8 of
           None \<Rightarrow> buf
         | Some d \<Rightarrow> if d = [] then buf else fill_args buf d)"

text \<open>
  \<^verbatim>\<open>_make_header\<close>. The slice assignment \<^verbatim>\<open>packet[:len(encrypted)] = encrypted[:512]\<close>
  replaces the first \<^verbatim>\<open>len(encrypted)\<close> bytes of the zeroed packet (all of them when there
  are fewer) by at most 512 bytes of ciphertext.
\<close>

definition make_header :: "int \<Rightarrow> int \<Rightarrow> byte list option \<Rightarrow> byte list" where
  "make_header now_ms cmd data_at_8 =
     (let encrypted = des_encrypt (header_plain now_ms cmd data_at_8);
          packet = replicate 512 0;
          packet = take 512 encrypted @ drop (length encrypted) packet;
          packet = packet[510 := 0xA1];
          packet = packet[511 := 0x1A]
      in packet)"

section \<open>The LCD controller\<close>

text \<open>
  Exceptions are values. \<^verbatim>\<open>usb.core.USBError\<close> and \<^verbatim>\<open>KeyboardInterrupt\<close> are the two that the
  streaming code names; \<^verbatim>\<open>open\<close> raises \<^verbatim>\<open>FileNotFoundError\<close> and the float division of
  \<^verbatim>\<open>sample_edge_colors\<close> raises \<^verbatim>\<open>ZeroDivisionError\<close>.
\<close>

datatype py_exn = USBError | KeyboardInterrupt | FileNotFoundError | ZeroDivisionError

text \<open>
  What one call of \<^verbatim>\<open>_send_and_read\<close> can produce: the 512-byte response, \<^verbatim>\<open>None\<close> (the write
  failed twice or the read timed out), or an exception that leaves the call.
\<close>

datatype usb_outcome = Resp "byte list" | NoResp | Raises py_exn

datatype event = UsbSend "byte list" | Sleep nat | FileRead "byte list"

text \<open>
  The state threaded through the methods of \<^verbatim>\<open>LCDDevice\<close>: the attribute
  \<^verbatim>\<open>h264_buf_len\<close>, and the environment the methods act on. The environment is scripted:
  \<open>clock s k\<close> is the \<open>k\<close>-th reading of the millisecond clock by \<^verbatim>\<open>_ts\<close>, \<open>usb s k\<close> the
  outcome of the \<open>k\<close>-th call of \<^verbatim>\<open>_send_and_read\<close>, \<open>files s\<close> the file system. \<open>events s\<close>
  records, in order, every buffer handed to \<^verbatim>\<open>_send_and_read\<close>, every \<^verbatim>\<open>time.sleep\<close> (in
  milliseconds) that \<^verbatim>\<open>_wait_buffer\<close> and \<^verbatim>\<open>play_h264\<close> make themselves, and every read of the
  stream file. What happens inside one call of \<^verbatim>\<open>_send_and_read\<close> leaves no event of its own:
  in particular the 100 ms sleep of \<^verbatim>\<open>_reconnect\<close>, made when the first write fails, is not
  recorded, so that the sleeps of a trace are a lower bound on the time slept. Output of
  \<^verbatim>\<open>print\<close> is not recorded.
\<close>

record lcd =
  h264_buf_len :: int
  files :: "string \<Rightarrow> byte list option"
  clock :: "nat \<Rightarrow> int"
  usb :: "nat \<Rightarrow> usb_outcome"
  n_clock :: nat
  n_usb :: nat
  events :: "event list"

definition CMD_BRIGHTNESS :: int where "CMD_BRIGHTNESS = 14"
definition CMD_SET_FRAMERATE :: int where "CMD_SET_FRAMERATE = 15"
definition CMD_GET_H264_BLOCK :: int where "CMD_GET_H264_BLOCK = 17"
definition CMD_START_PLAY1 :: int where "CMD_START_PLAY1 = 119"
definition CMD_START_PLAY2 :: int where "CMD_START_PLAY2 = 120"
definition CMD_START_PLAY :: int where "CMD_START_PLAY = 121"
definition CMD_QUERY_BLOCK :: int where "CMD_QUERY_BLOCK = 122"
definition CMD_STOP_PLAY :: int where "CMD_STOP_PLAY = 123"

text \<open>\<^verbatim>\<open>LCDDevice.__init__\<close>: the default buffer length, in a given environment.\<close>

definition LCDDevice_init ::
  "(string \<Rightarrow> byte list option) \<Rightarrow> (nat \<Rightarrow> int) \<Rightarrow> (nat \<Rightarrow> usb_outcome) \<Rightarrow> lcd" where
  "LCDDevice_init fs clk dev =
     \<lparr>h264_buf_len = 202752, files = fs, clock = clk, usb = dev,
      n_clock = 0, n_usb = 0, events = []\<rparr>"

definition sleep :: "nat \<Rightarrow> lcd \<Rightarrow> lcd" where
  "sleep ms s = s\<lparr>events := events s @ [Sleep ms]\<rparr>"

text \<open>
  \<^verbatim>\<open>_send_and_read\<close> with its default \<^verbatim>\<open>read=True\<close>, the only way the driver calls it. The
  flushing, the write, its one retry after \<^verbatim>\<open>_reconnect\<close> (which sleeps 100 ms) and the read
  are not modelled step by step: the script gives their combined outcome, and the call
  leaves one event, the buffer it was given.
\<close>

fun result_of :: "usb_outcome \<Rightarrow> py_exn + byte list option" where
  "result_of (Resp r) = Inr (Some r)"
| "result_of NoResp = Inr None"
| "result_of (Raises e) = Inl e"

definition send_and_read :: "lcd \<Rightarrow> byte list \<Rightarrow> (py_exn + byte list option) \<times> lcd" where
  "send_and_read s data =
     (result_of (usb s (n_usb s)),
      s\<lparr>n_usb := Suc (n_usb s), events := events s @ [UsbSend data]\<rparr>)"

text \<open>\<^verbatim>\<open>send_cmd\<close>: \<^verbatim>\<open>_make_header\<close> reads the clock, then the frame is sent.\<close>

definition send_cmd :: "lcd \<Rightarrow> int \<Rightarrow> byte list option \<Rightarrow> (py_exn + byte list option) \<times> lcd" where
  "send_cmd s cmd data =
     (let now_ms = clock s (n_clock s);
          s1 = s\<lparr>n_clock := Suc (n_clock s)\<rparr>
      in send_and_read s1 (make_header now_ms cmd data))"

definition set_brightness :: "lcd \<Rightarrow> int \<Rightarrow> (py_exn + byte list option) \<times> lcd" where
  "set_brightness s level = send_cmd s CMD_BRIGHTNESS (Some [word_of_int (max 0 (min 100 level))])"

definition set_framerate :: "lcd \<Rightarrow> int \<Rightarrow> (py_exn + byte list option) \<times> lcd" where
  "set_framerate s fps = send_cmd s CMD_SET_FRAMERATE (Some [word_of_int (max 1 (min 99 fps))])"

definition stop_play :: "lcd \<Rightarrow> (py_exn + byte list option) \<times> lcd" where
  "stop_play s = send_cmd s CMD_STOP_PLAY None"

definition query_block :: "lcd \<Rightarrow> (py_exn + byte list option) \<times> lcd" where
  "query_block s = send_cmd s CMD_QUERY_BLOCK None"

text \<open>
  \<^verbatim>\<open>check_h264_block\<close>. \<^verbatim>\<open>if resp and len(resp) > 11\<close> needs a response that is neither
  \<^verbatim>\<open>None\<close> nor empty.
\<close>

definition check_h264_block :: "lcd \<Rightarrow> (py_exn + int) \<times> lcd" where
  "check_h264_block s =
     (case send_cmd s CMD_GET_H264_BLOCK None of
        (Inl e, s1) \<Rightarrow> (Inl e, s1)
      | (Inr resp, s1) \<Rightarrow>
          (case resp of
             None \<Rightarrow> (Inr (h264_buf_len s1), s1)
           | Some r \<Rightarrow>
               if r \<noteq> [] \<and> length r > 11 then
                 (let size = push_bit 24 (uint (r ! 8)) OR push_bit 16 (uint (r ! 9))
                               OR push_bit 8 (uint (r ! 10)) OR uint (r ! 11)
                  in if size > 0 then (Inr size, s1\<lparr>h264_buf_len := size\<rparr>)
                     else (Inr (h264_buf_len s1), s1))
               else (Inr (h264_buf_len s1), s1)))"

text \<open>
  \<^verbatim>\<open>{CMD_START_PLAY: 8, CMD_START_PLAY1: 9, CMD_START_PLAY2: 10}.get(play_cmd, 8)\<close>.
\<close>

definition buf_idx_of :: "int \<Rightarrow> nat" where
  "buf_idx_of play_cmd =
     (if play_cmd = CMD_START_PLAY then 8
      else if play_cmd = CMD_START_PLAY1 then 9
      else if play_cmd = CMD_START_PLAY2 then 10
      else 8)"

text \<open>
  \<^verbatim>\<open>_wait_buffer\<close>: the loop \<^verbatim>\<open>for _ in range(200)\<close>, with the number of passes left as the
  first argument. A \<^verbatim>\<open>USBError\<close> from \<^verbatim>\<open>send_cmd\<close> is caught (sleep, next pass); any other
  exception leaves the method.
\<close>

fun wait_loop :: "nat \<Rightarrow> lcd \<Rightarrow> int \<Rightarrow> nat \<Rightarrow> (py_exn + unit) \<times> lcd" where
  "wait_loop 0 s max_blocks buf_idx = (Inr (), s)"
| "wait_loop (Suc n) s max_blocks buf_idx =
     (case send_cmd (sleep 50 s) CMD_QUERY_BLOCK None of
        (Inl USBError, s1) \<Rightarrow> wait_loop n (sleep 500 s1) max_blocks buf_idx
      | (Inl e, s1) \<Rightarrow> (Inl e, s1)
      | (Inr resp, s1) \<Rightarrow>
          if (case resp of
                None \<Rightarrow> False
              | Some r \<Rightarrow> r \<noteq> [] \<and> length r > buf_idx \<and> uint (r ! buf_idx) \<le> max_blocks)
          then (Inr (), s1)
          else wait_loop n s1 max_blocks buf_idx)"

definition wait_buffer :: "lcd \<Rightarrow> int \<Rightarrow> int \<Rightarrow> (py_exn + unit) \<times> lcd" where
  "wait_buffer s max_blocks play_cmd = wait_loop 200 s max_blocks (buf_idx_of play_cmd)"

text \<open>
  The packet of one chunk in \<^verbatim>\<open>play_h264\<close>: \<^verbatim>\<open>buf = bytearray(512 + data_len)\<close>,
  \<^verbatim>\<open>buf[512:] = chunk\<close>, the six argument bytes (length big-endian, 0, play count), and
  \<^verbatim>\<open>buf[0:512] = _make_header(play_cmd, header_data)\<close>.
\<close>

definition chunk_header_data :: "int \<Rightarrow> byte list \<Rightarrow> byte list" where
  "chunk_header_data play_count chunk =
     (let data_len = int (length chunk)
      in [word_of_int (drop_bit 24 data_len AND 0xFF), word_of_int (drop_bit 16 data_len AND 0xFF),
          word_of_int (drop_bit 8 data_len AND 0xFF), word_of_int (data_len AND 0xFF),
          0, word_of_int (play_count AND 0xFF)])"

definition chunk_packet :: "int \<Rightarrow> int \<Rightarrow> int \<Rightarrow> byte list \<Rightarrow> byte list" where
  "chunk_packet now_ms play_cmd play_count chunk =
     (let buf = replicate (512 + length chunk) 0;
          buf = take 512 buf @ chunk;
          header_data = chunk_header_data play_count chunk
      in make_header now_ms play_cmd (Some header_data) @ drop 512 buf)"

text \<open>
  The body of the inner loop of \<^verbatim>\<open>play_h264\<close> for one non-empty chunk: build the packet
  (reading the clock), send it, sleep 30 ms, and wait for the device buffer when the depth
  byte of the response exceeds 3.
\<close>

definition send_chunk :: "lcd \<Rightarrow> int \<Rightarrow> int \<Rightarrow> nat \<Rightarrow> byte list \<Rightarrow> (py_exn + unit) \<times> lcd" where
  "send_chunk s play_cmd play_count buf_idx chunk =
     (let now_ms = clock s (n_clock s);
          s1 = s\<lparr>n_clock := Suc (n_clock s)\<rparr>
      in case send_and_read s1 (chunk_packet now_ms play_cmd play_count chunk) of
           (Inl e, s2) \<Rightarrow> (Inl e, s2)
         | (Inr resp, s2) \<Rightarrow>
             (let s3 = sleep 30 s2
              in if (case resp of
                       None \<Rightarrow> False
                     | Some r \<Rightarrow> r \<noteq> [] \<and> length r > buf_idx \<and> uint (r ! buf_idx) > 3)
                 then wait_buffer s3 2 play_cmd
                 else (Inr (), s3)))"

text \<open>\<^verbatim>\<open>f.read(n)\<close> on the unread rest of the file: a negative \<open>n\<close> reads everything.\<close>

definition file_read :: "int \<Rightarrow> byte list \<Rightarrow> byte list \<times> byte list" where
  "file_read n rest = (if n < 0 then (rest, []) else (take (nat n) rest, drop (nat n) rest))"

text \<open>
  The inner loop \<^verbatim>\<open>while True: chunk = f.read(buf_len); if not chunk: break; ...\<close> over the
  unread rest of the file.
\<close>

function stream_file :: "lcd \<Rightarrow> int \<Rightarrow> int \<Rightarrow> int \<Rightarrow> nat \<Rightarrow> byte list \<Rightarrow> (py_exn + unit) \<times> lcd" where
  "stream_file s buf_len play_cmd play_count buf_idx rest =
     (let chunk = fst (file_read buf_len rest);
          s0 = s\<lparr>events := events s @ [FileRead chunk]\<rparr>
      in if chunk = [] then (Inr (), s0)
         else case send_chunk s0 play_cmd play_count buf_idx chunk of
                (Inl e, s1) \<Rightarrow> (Inl e, s1)
              | (Inr u, s1) \<Rightarrow>
                  stream_file s1 buf_len play_cmd play_count buf_idx (snd (file_read buf_len rest)))"
  by pat_completeness auto
termination
  by (relation "measure (\<lambda>(s, buf_len, play_cmd, play_count, buf_idx, rest). length rest)")
     (auto simp: file_read_def split: if_splits)

text \<open>
  The outer loop \<^verbatim>\<open>while True: with open(filepath, 'rb') as f: ...; if not loop: break\<close>. With
  \<^verbatim>\<open>loop\<close> set it ends only by an exception, so the result is optional: \<open>None\<close> is a run that
  never returns.
\<close>

partial_function (option) play_loop ::
  "lcd \<Rightarrow> string \<Rightarrow> bool \<Rightarrow> int \<Rightarrow> int \<Rightarrow> int \<Rightarrow> nat \<Rightarrow> ((py_exn + unit) \<times> lcd) option" where
  "play_loop s filepath loop buf_len play_cmd play_count buf_idx =
     (case files s filepath of
        None \<Rightarrow> Some (Inl FileNotFoundError, s)
      | Some content \<Rightarrow>
          (case stream_file s buf_len play_cmd play_count buf_idx content of
             (Inl e, s1) \<Rightarrow> Some (Inl e, s1)
           | (Inr u, s1) \<Rightarrow>
               if \<not> loop then Some (Inr (), s1)
               else play_loop s1 filepath loop buf_len play_cmd play_count buf_idx))"

text \<open>The end of \<^verbatim>\<open>play_h264\<close>: \<^verbatim>\<open>self.stop_play(); return True\<close>.\<close>

definition play_finish :: "lcd \<Rightarrow> (py_exn + bool) \<times> lcd" where
  "play_finish s = (case stop_play s of (Inl e, s1) \<Rightarrow> (Inl e, s1) | (Inr r, s1) \<Rightarrow> (Inr True, s1))"

text \<open>
  \<^verbatim>\<open>play_h264\<close>. \<^verbatim>\<open>os.path.exists\<close> is a lookup in the file system; a
  \<^verbatim>\<open>KeyboardInterrupt\<close> inside the loops is caught, any other exception leaves the method.
\<close>

definition play_h264 :: "lcd \<Rightarrow> string \<Rightarrow> bool \<Rightarrow> int \<Rightarrow> int \<Rightarrow> ((py_exn + bool) \<times> lcd) option" where
  "play_h264 s filepath loop play_cmd play_count =
     (if files s filepath = None then Some (Inr False, s)
      else case check_h264_block s of
             (Inl e, s1) \<Rightarrow> Some (Inl e, s1)
           | (Inr sz, s1) \<Rightarrow>
               (let buf_len = h264_buf_len s1;
                    buf_idx = buf_idx_of play_cmd
                in case play_loop s1 filepath loop buf_len play_cmd play_count buf_idx of
                     None \<Rightarrow> None
                   | Some (Inl KeyboardInterrupt, s2) \<Rightarrow> Some (play_finish s2)
                   | Some (Inl e, s2) \<Rightarrow> Some (Inl e, s2)
                   | Some (Inr u, s2) \<Rightarrow> Some (play_finish s2)))"

section \<open>The LED ring controller\<close>

text \<open>
  The state of \<^verbatim>\<open>LEDDevice\<close> with its scripted device: \<open>led_write_ok d k\<close> tells whether the
  \<open>k\<close>-th \<^verbatim>\<open>dev.write\<close> succeeds (it raises \<^verbatim>\<open>USBError\<close> otherwise), \<open>led_resp d k\<close> is the
  \<open>k\<close>-th result of reading a response, \<open>written d\<close> the packets written so far.
\<close>

record led =
  led_write_ok :: "nat \<Rightarrow> bool"
  led_resp :: "nat \<Rightarrow> byte list option"
  n_write :: nat
  n_read :: nat
  written :: "byte list list"

definition NUM_LEDS :: nat where "NUM_LEDS = 60"
definition LEDS_PER_GROUP :: nat where "LEDS_PER_GROUP = 20"

text \<open>
  \<^verbatim>\<open>LEDDevice._send\<close>: \<^verbatim>\<open>buf = bytearray(64); buf[:min(len(data), 64)] = data[:64]\<close>, one write,
  and a read only when asked for.
\<close>

definition led_send :: "led \<Rightarrow> byte list \<Rightarrow> bool \<Rightarrow> (py_exn + byte list option) \<times> led" where
  "led_send d data read =
     (let buf = replicate 64 0;
          buf = take 64 data @ drop (min (length data) 64) buf
      in if \<not> led_write_ok d (n_write d) then (Inl USBError, d\<lparr>n_write := Suc (n_write d)\<rparr>)
         else let d1 = d\<lparr>n_write := Suc (n_write d), written := written d @ [buf]\<rparr>
              in if \<not> read then (Inr None, d1)
                 else (Inr (led_resp d1 (n_read d1)), d1\<lparr>n_read := Suc (n_read d1)\<rparr>))"

text \<open>The packet that \<^verbatim>\<open>set_leds\<close> builds for one group.\<close>

definition led_packet :: "nat \<Rightarrow> (int \<times> int \<times> int) list \<Rightarrow> byte list" where
  "led_packet grp leds_rgb =
     (let pkt = replicate 64 0;
          pkt = pkt[0 := 17];
          pkt = pkt[1 := of_nat (grp * LEDS_PER_GROUP)]
      in foldl (\<lambda>p i.
                 let idx = grp * LEDS_PER_GROUP + i
                 in if idx < length leds_rgb then
                      (case leds_rgb ! idx of
                         (r, g, b) \<Rightarrow>
                           p[4 + i * 3 := word_of_int (r AND 0xFF),
                             4 + i * 3 + 1 := word_of_int (g AND 0xFF),
                             4 + i * 3 + 2 := word_of_int (b AND 0xFF)])
                    else p)
           pkt [0..<LEDS_PER_GROUP])"

text \<open>The loop \<^verbatim>\<open>for group in range(3)\<close> of \<^verbatim>\<open>set_leds\<close>; a failed write ends it.\<close>

fun set_leds_groups :: "led \<Rightarrow> (int \<times> int \<times> int) list \<Rightarrow> nat list \<Rightarrow> (py_exn + unit) \<times> led" where
  "set_leds_groups d leds_rgb [] = (Inr (), d)"
| "set_leds_groups d leds_rgb (grp # grps) =
     (case led_send d (led_packet grp leds_rgb) False of
        (Inl e, d1) \<Rightarrow> (Inl e, d1)
      | (Inr r, d1) \<Rightarrow> set_leds_groups d1 leds_rgb grps)"

definition set_leds :: "led \<Rightarrow> (int \<times> int \<times> int) list \<Rightarrow> (py_exn + unit) \<times> led" where
  "set_leds d leds_rgb = set_leds_groups d leds_rgb [0..<3]"

definition set_all :: "led \<Rightarrow> int \<Rightarrow> int \<Rightarrow> int \<Rightarrow> (py_exn + unit) \<times> led" where
  "set_all d r g b = set_leds d (replicate NUM_LEDS (r, g, b))"

definition off :: "led \<Rightarrow> (py_exn + unit) \<times> led" where
  "off d = set_all d 0 0 0"

section \<open>Edge sampling\<close>

text \<open>
  A PIL image in RGB mode: its size and its pixels. \<^verbatim>\<open>img.crop((x0, y0, x1, y1))\<close> followed by
  \<^verbatim>\<open>getdata()\<close> lists the pixels of the box row by row.
\<close>

record image =
  img_w :: int
  img_h :: int
  pixel :: "int \<Rightarrow> int \<Rightarrow> int \<times> int \<times> int"

definition crop_pixels :: "image \<Rightarrow> int \<Rightarrow> int \<Rightarrow> int \<Rightarrow> int \<Rightarrow> (int \<times> int \<times> int) list" where
  "crop_pixels img x0 y0 x1 y1 =
     concat (map (\<lambda>y. map (\<lambda>x. pixel img x y) [x0..x1 - 1]) [y0..y1 - 1])"

text \<open>
  \<^verbatim>\<open>step\<close> and \<^verbatim>\<open>pos\<close> are Python floats. They are modelled by exact rationals; \<^verbatim>\<open>int(pos)\<close>
  truncates towards zero. For a 480 by 1920 image and 60 LEDs the step is 80 and every
  position is a whole number below 4800, which binary floating point represents exactly.
  Where the step is not representable the float product can fall just below a whole number
  that the exact product reaches (with 28 LEDs, \<^verbatim>\<open>21 * (4800 / 28)\<close> is 3599.9999999999995),
  and the model then samples another block of pixels than the code. The number of colours
  returned does not depend on this.
\<close>

definition py_int :: "rat \<Rightarrow> int" where
  "py_int x = (if x < 0 then \<lceil>x\<rceil> else \<lfloor>x\<rfloor>)"

definition sample_at :: "image \<Rightarrow> rat \<Rightarrow> int \<Rightarrow> int \<times> int \<times> int" where
  "sample_at img step i =
     (let w = img_w img; h = img_h img;
          sample_size = 8;
          pos = of_int i * step;
          (cx, cy) =
            (if pos < of_int w then (py_int pos, h - 1)
             else if pos < of_int (w + h) then (w - 1, h - 1 - py_int (pos - of_int w))
             else if pos < of_int (2 * w + h) then (w - 1 - py_int (pos - of_int w - of_int h), 0)
             else (0, py_int (pos - of_int (2 * w) - of_int h)));
          x0 = max 0 (cx - sample_size div 2);
          y0 = max 0 (cy - sample_size div 2);
          x1 = min w (x0 + sample_size);
          y1 = min h (y0 + sample_size);
          pixels = crop_pixels img x0 y0 x1 y1
      in if pixels \<noteq> [] then
           (sum_list (map (\<lambda>p. fst p) pixels) div int (length pixels),
            sum_list (map (\<lambda>p. fst (snd p)) pixels) div int (length pixels),
            sum_list (map (\<lambda>p. snd (snd p)) pixels) div int (length pixels))
         else (0, 0, 0))"

definition sample_edge_colors :: "image \<Rightarrow> int \<Rightarrow> py_exn + (int \<times> int \<times> int) list" where
  "sample_edge_colors img num_leds =
     (let w = img_w img; h = img_h img;
          perimeter = 2 * (w + h)
      in if num_leds = 0 then Inl ZeroDivisionError
         else let step = of_int perimeter / of_int num_leds
              in Inr (map (sample_at img step) [0..num_leds - 1]))"


section \<open>Notions used to state the properties\<close>

text \<open>
  The buffer depth that a device answer carries at offset \<open>idx\<close>, when the answer is a
  non-empty response long enough to have that byte.
\<close>

definition depth_at :: "nat \<Rightarrow> usb_outcome \<Rightarrow> int option" where
  "depth_at idx out =
     (case out of
        Resp r \<Rightarrow> if r \<noteq> [] \<and> idx < length r then Some (uint (r ! idx)) else None
      | NoResp \<Rightarrow> None
      | Raises e \<Rightarrow> None)"

text \<open>
  An answer to a poll after which the wait loop goes on: a caught \<^verbatim>\<open>USBError\<close>, no response,
  a response without the depth byte, or a depth above the bound.
\<close>

definition poll_continues :: "int \<Rightarrow> nat \<Rightarrow> usb_outcome \<Rightarrow> bool" where
  "poll_continues max_blocks idx out =
     (case out of
        Raises e \<Rightarrow> e = USBError
      | NoResp \<Rightarrow> True
      | Resp r \<Rightarrow> (case depth_at idx out of None \<Rightarrow> True | Some d \<Rightarrow> max_blocks < d))"

text \<open>
  How many polls a wait loop of at most \<open>n\<close> passes makes when the device answers the
  \<open>u\<close>-th and the following calls as \<open>dev\<close> says: it stops after the first answer on which
  it does not go on.
\<close>

fun polls_done :: "nat \<Rightarrow> int \<Rightarrow> nat \<Rightarrow> (nat \<Rightarrow> usb_outcome) \<Rightarrow> nat \<Rightarrow> nat" where
  "polls_done 0 max_blocks idx dev u = 0"
| "polls_done (Suc n) max_blocks idx dev u =
     (if poll_continues max_blocks idx (dev u)
      then Suc (polls_done n max_blocks idx dev (Suc u))
      else 1)"

text \<open>The state after the packet of a chunk has been sent and the 30 ms sleep is over.\<close>

definition chunk_sent :: "lcd \<Rightarrow> int \<Rightarrow> int \<Rightarrow> byte list \<Rightarrow> lcd" where
  "chunk_sent s play_cmd play_count chunk =
     s\<lparr>n_clock := Suc (n_clock s), n_usb := Suc (n_usb s),
       events := events s @ [UsbSend (chunk_packet (clock s (n_clock s)) play_cmd play_count chunk),
                             Sleep 30]\<rparr>"

text \<open>
  The events of \<open>p\<close> successive polls of the wait loop, begun when \<open>c\<close> clock readings and
  \<open>u\<close> device calls have been made: a 50 ms sleep and a \<^verbatim>\<open>query_block\<close> frame each, and a
  500 ms sleep after a poll that raised \<^verbatim>\<open>USBError\<close>.
\<close>

fun poll_events :: "(nat \<Rightarrow> int) \<Rightarrow> (nat \<Rightarrow> usb_outcome) \<Rightarrow> nat \<Rightarrow> nat \<Rightarrow> nat \<Rightarrow> event list" where
  "poll_events clk dev c u 0 = []"
| "poll_events clk dev c u (Suc p) =
     [Sleep 50, UsbSend (make_header (clk c) CMD_QUERY_BLOCK None)]
       @ (if dev u = Raises USBError then [Sleep 500] else [])
       @ poll_events clk dev (Suc c) (Suc u) p"

text \<open>
  The offset of the buffer-depth byte in a response, as the specification gives it by play
  command: 8 for the command 121, 9 for 119 and 10 for 120. The specification names no other
  play command; the offset 8 is taken for any other number.
\<close>

definition slot_offset :: "int \<Rightarrow> nat" where
  "slot_offset play_cmd = (if play_cmd = 119 then 9 else if play_cmd = 120 then 10 else 8)"

text \<open>
  How a wait of \<open>p\<close> polls ends, the first of them being the \<open>u\<close>-th device call: with the
  exception of its last poll when that poll raised one other than \<^verbatim>\<open>USBError\<close>, normally
  otherwise.
\<close>

definition poll_result :: "(nat \<Rightarrow> usb_outcome) \<Rightarrow> nat \<Rightarrow> nat \<Rightarrow> py_exn + unit" where
  "poll_result dev u p =
     (if p = 0 then Inr ()
      else case dev (u + p - 1) of
             Raises e \<Rightarrow> if e = USBError then Inr () else Inl e
           | Resp r \<Rightarrow> Inr ()
           | NoResp \<Rightarrow> Inr ())"

text \<open>
  The flow-control wait of the specification at the offset \<open>idx\<close>: \<^verbatim>\<open>query_block\<close> is polled
  at most 200 times, and the wait is over with the first answer whose depth at \<open>idx\<close> is at
  most 2.
\<close>

definition wait_spec :: "lcd \<Rightarrow> nat \<Rightarrow> (py_exn + unit) \<times> lcd" where
  "wait_spec w idx =
     (let p = polls_done 200 2 idx (usb w) (n_usb w)
      in (poll_result (usb w) (n_usb w) p,
          w\<lparr>n_clock := n_clock w + p, n_usb := n_usb w + p,
            events := events w @ poll_events (clock w) (usb w) (n_clock w) (n_usb w) p\<rparr>))"

text \<open>
  One chunk as the specification describes it: the packet is sent, 30 ms are slept, and the
  depth of the response at the offset of the slot decides: above 3 the flow-control wait
  is entered, otherwise the step is over. An exception raised by the sending ends the step
  at once.
\<close>

definition chunk_spec :: "lcd \<Rightarrow> int \<Rightarrow> int \<Rightarrow> byte list \<Rightarrow> (py_exn + unit) \<times> lcd" where
  "chunk_spec s play_cmd play_count chunk =
     (case usb s (n_usb s) of
        Raises e \<Rightarrow>
          (Inl e,
           s\<lparr>n_clock := Suc (n_clock s), n_usb := Suc (n_usb s),
             events := events s @ [UsbSend (chunk_packet (clock s (n_clock s)) play_cmd play_count chunk)]\<rparr>)
      | NoResp \<Rightarrow> (Inr (), chunk_sent s play_cmd play_count chunk)
      | Resp r \<Rightarrow>
          (case depth_at (slot_offset play_cmd) (Resp r) of
             None \<Rightarrow> (Inr (), chunk_sent s play_cmd play_count chunk)
           | Some d \<Rightarrow>
               if 3 < d
               then wait_spec (chunk_sent s play_cmd play_count chunk) (slot_offset play_cmd)
               else (Inr (), chunk_sent s play_cmd play_count chunk)))"

text \<open>
  The chunks of a file read with the capacity \<open>n\<close>: pieces of \<open>n\<close> bytes, of which the last
  may be shorter. (Read as \<^verbatim>\<open>f.read(n)\<close> reads, a negative capacity gives the whole file as
  one chunk and the capacity 0 gives no chunk.)
\<close>

function chunks_of :: "int \<Rightarrow> byte list \<Rightarrow> byte list list" where
  "chunks_of n rest =
     (let chunk = fst (file_read n rest)
      in if chunk = [] then [] else chunk # chunks_of n (snd (file_read n rest)))"
  by pat_completeness auto
termination
  by (relation "measure (\<lambda>(n, rest). length rest)") (auto simp: file_read_def split: if_splits)

text \<open>
  One pass over the chunks of the file: each chunk is read and goes through the chunk step,
  and the next chunk is read in the state in which that step, with its wait, has ended. An
  exception ends the pass; after the last chunk the read that finds the end of the file is
  made.
\<close>

fun run_chunks :: "lcd \<Rightarrow> int \<Rightarrow> int \<Rightarrow> byte list list \<Rightarrow> (py_exn + unit) \<times> lcd" where
  "run_chunks s play_cmd play_count [] = (Inr (), s\<lparr>events := events s @ [FileRead []]\<rparr>)"
| "run_chunks s play_cmd play_count (c # cs) =
     (case chunk_spec (s\<lparr>events := events s @ [FileRead c]\<rparr>) play_cmd play_count c of
        (Inl e, s1) \<Rightarrow> (Inl e, s1)
      | (Inr u, s1) \<Rightarrow> run_chunks s1 play_cmd play_count cs)"

text \<open>
  At most \<open>n\<close> passes over the file: without \<open>loop\<close> the first pass is the only one, with
  \<open>loop\<close> the passes follow each other until one ends by an exception. The value is \<open>None\<close>
  when \<open>n\<close> passes do not reach the end of the run.
\<close>

fun passes_spec ::
  "nat \<Rightarrow> bool \<Rightarrow> lcd \<Rightarrow> int \<Rightarrow> int \<Rightarrow> byte list list \<Rightarrow> ((py_exn + unit) \<times> lcd) option" where
  "passes_spec 0 loop s play_cmd play_count cs = None"
| "passes_spec (Suc n) loop s play_cmd play_count cs =
     (case run_chunks s play_cmd play_count cs of
        (Inl e, s1) \<Rightarrow> Some (Inl e, s1)
      | (Inr u, s1) \<Rightarrow>
          if \<not> loop then Some (Inr (), s1)
          else passes_spec n loop s1 play_cmd play_count cs)"

text \<open>
  The streamer of the specification, followed for at most \<open>n\<close> passes: nothing is done for a
  missing file; otherwise the capacity is asked for, the file is streamed in chunks of the
  capacity the device then has, and \<^verbatim>\<open>stop_play\<close> is sent on a normal or a cancelled exit.
\<close>

definition play_spec ::
  "nat \<Rightarrow> lcd \<Rightarrow> string \<Rightarrow> bool \<Rightarrow> int \<Rightarrow> int \<Rightarrow> ((py_exn + bool) \<times> lcd) option" where
  "play_spec n s filepath loop play_cmd play_count =
     (case files s filepath of
        None \<Rightarrow> Some (Inr False, s)
      | Some content \<Rightarrow>
          (case check_h264_block s of
             (Inl e, s1) \<Rightarrow> Some (Inl e, s1)
           | (Inr sz, s1) \<Rightarrow>
               (case passes_spec n loop s1 play_cmd play_count (chunks_of (h264_buf_len s1) content) of
                  None \<Rightarrow> None
                | Some (Inl KeyboardInterrupt, s2) \<Rightarrow> Some (play_finish s2)
                | Some (Inl e, s2) \<Rightarrow> Some (Inl e, s2)
                | Some (Inr u, s2) \<Rightarrow> Some (play_finish s2))))"

text \<open>
  The buffers sent and the file reads of a trace, in order, without its sleeps; and a result
  with its state seen in this way.
\<close>

definition io_events :: "event list \<Rightarrow> event list" where
  "io_events evs =
     filter (\<lambda>e. case e of UsbSend d \<Rightarrow> True | Sleep ms \<Rightarrow> False | FileRead c \<Rightarrow> True) evs"

definition io_view :: "'a \<times> lcd \<Rightarrow> 'a \<times> lcd" where
  "io_view a = (fst a, (snd a)\<lparr>events := io_events (events (snd a))\<rparr>)"

text \<open>
  An example: a file of three bytes, and a device that reports a capacity of 2 bytes to the
  first call and then, at offset 9, the depths 5, 3, 2, 2, ... while its byte at offset 8
  is always 0.
\<close>

definition example_files :: "string \<Rightarrow> byte list option" where
  "example_files p = (if p = ''clip.h264'' then Some [1, 2, 3] else None)"

definition example_answers :: "nat \<Rightarrow> usb_outcome" where
  "example_answers k =
     (if k = 0 then Resp (replicate 11 0 @ [2])
      else if k = 1 then Resp (replicate 9 0 @ [5])
      else if k = 2 then Resp (replicate 9 0 @ [3])
      else Resp (replicate 9 0 @ [2]))"

text \<open>
  The block size that an answer to \<^verbatim>\<open>CMD_GET_H264_BLOCK\<close> reports: bytes 8 to 11, most
  significant first.
\<close>

definition reported_size :: "usb_outcome \<Rightarrow> int option" where
  "reported_size out =
     (case out of
        Resp r \<Rightarrow>
          if 11 < length r
          then Some (16777216 * uint (r ! 8) + 65536 * uint (r ! 9) + 256 * uint (r ! 10) + uint (r ! 11))
          else None
      | NoResp \<Rightarrow> None
      | Raises e \<Rightarrow> None)"

text \<open>
  The three colour bytes that \<^verbatim>\<open>set_leds\<close> puts into a packet for the LED \<open>idx\<close>: the
  components of its colour, each reduced by \<^verbatim>\<open>& 0xFF\<close>, and zeros when the list has no
  entry \<open>idx\<close>.
\<close>

definition led_cell :: "(int \<times> int \<times> int) list \<Rightarrow> nat \<Rightarrow> byte list" where
  "led_cell leds_rgb idx =
     (if idx < length leds_rgb
      then (case leds_rgb ! idx of
              (r, g, b) \<Rightarrow> [word_of_int (r AND 0xFF), word_of_int (g AND 0xFF), word_of_int (b AND 0xFF)])
      else [0, 0, 0])"

text \<open>An image whose every pixel has the colour \<open>c\<close>.\<close>

definition uniform_image :: "int \<Rightarrow> int \<Rightarrow> int \<times> int \<times> int \<Rightarrow> image" where
  "uniform_image w h c = \<lparr>img_w = w, img_h = h, pixel = \<lambda>x y. c\<rparr>"

section \<open>Properties of the cipher model\<close>

declare cbc_encrypt.simps [simp del] cbc_decrypt.simps [simp del]

lemma length_bits_of_byte: "length (bits_of_byte b) = 8"
  by (simp add: bits_of_byte_def)

lemma nth_upt0: "i < n \<Longrightarrow> [0..<n] ! i = i"
  by simp

lemma nth_bits_of_byte: "i < 8 \<Longrightarrow> bits_of_byte b ! i = bit b (7 - i)"
  unfolding bits_of_byte_def by (simp only: nth_map length_upt nth_upt0 diff_zero)

lemma byte_of_bits_of_byte: "byte_of_bits (bits_of_byte b) = b"
proof (rule bit_word_eqI)
  fix n assume "n < LENGTH(8)"
  then have n: "n < 8" by simp
  have n7: "7 - n < 8" by arith
  have nn: "7 - (7 - n) = n" using n by arith
  have "rev (bits_of_byte b) ! n = bits_of_byte b ! (7 - n)"
    using n by (simp add: rev_nth length_bits_of_byte)
  also have "\<dots> = bit b n" by (simp only: nth_bits_of_byte [OF n7] nn)
  finally have r: "rev (bits_of_byte b) ! n = bit b n" .
  have "bit (byte_of_bits (bits_of_byte b)) n = (n < min LENGTH(8) (length (rev (bits_of_byte b))) \<and> rev (bits_of_byte b) ! n)"
    unfolding byte_of_bits_def by (rule bit_horner_sum_bit_word_iff)
  then show "bit (byte_of_bits (bits_of_byte b)) n = bit b n"
    using n r by (simp add: length_bits_of_byte)
qed

lemma bits_of_byte_of_bits: "length bs = 8 \<Longrightarrow> bits_of_byte (byte_of_bits bs) = bs"
proof (rule nth_equalityI)
  assume l: "length bs = 8"
  show "length (bits_of_byte (byte_of_bits bs)) = length bs" using l by (simp add: length_bits_of_byte)
  fix i assume "i < length (bits_of_byte (byte_of_bits bs))"
  then have i: "i < 8" by (simp add: length_bits_of_byte)
  have i7: "7 - i < 8" by arith
  have "bits_of_byte (byte_of_bits bs) ! i = bit (byte_of_bits bs) (7 - i)"
    by (rule nth_bits_of_byte [OF i])
  also have "\<dots> = (7 - i < min LENGTH(8) (length (rev bs)) \<and> rev bs ! (7 - i))"
    unfolding byte_of_bits_def by (rule bit_horner_sum_bit_word_iff)
  also have "\<dots> = rev bs ! (7 - i)" using i7 l by simp
  also have "\<dots> = bs ! (length bs - Suc (7 - i))" using i7 l by (simp add: rev_nth)
  also have "length bs - Suc (7 - i) = i" using i l by arith
  finally show "bits_of_byte (byte_of_bits bs) ! i = bs ! i" .
qed

lemma bits_of_byte_expand:
  "bits_of_byte b = [bit b 7, bit b 6, bit b 5, bit b 4, bit b 3, bit b 2, bit b 1, bit b 0]"
  by (simp add: bits_of_byte_def upt_rec)

lemma bytes_of_bits_of_bytes: "bytes_of_bits (bits_of_bytes bs) = bs"
proof (induction bs)
  case Nil
  then show ?case by (simp add: bits_of_bytes_def)
next
  case (Cons b bs)
  have "byte_of_bits [bit b 7, bit b 6, bit b 5, bit b 4, bit b 3, bit b 2, bit b 1, bit b 0] = b"
    using byte_of_bits_of_byte [of b] by (simp only: bits_of_byte_expand)
  with Cons show ?case by (simp add: bits_of_bytes_def bits_of_byte_expand)
qed

lemma length_bits_of_bytes: "length (bits_of_bytes bs) = 8 * length bs"
  by (induction bs) (simp_all add: bits_of_bytes_def length_bits_of_byte)

lemma length_bytes_of_bits: "length (bytes_of_bits xs) = length xs div 8"
  by (induction xs rule: bytes_of_bits.induct) simp_all

lemma bits_of_bytes_of_bits: "8 dvd length xs \<Longrightarrow> bits_of_bytes (bytes_of_bits xs) = xs"
proof (induction xs rule: bytes_of_bits.induct)
  case (1 b0 b1 b2 b3 b4 b5 b6 b7 rest)
  have "length (b0 # b1 # b2 # b3 # b4 # b5 # b6 # b7 # rest) = 8 + length rest" by simp
  with "1.prems" have "8 dvd 8 + length rest" by (simp only:)
  then have "8 dvd length rest" by (simp only: dvd_add_triv_left_iff)
  then have IH: "bits_of_bytes (bytes_of_bits rest) = rest" by (rule "1.IH")
  have "bits_of_byte (byte_of_bits [b0, b1, b2, b3, b4, b5, b6, b7]) = [b0, b1, b2, b3, b4, b5, b6, b7]"
    by (rule bits_of_byte_of_bits) simp
  with IH show ?case by (simp add: bits_of_bytes_def)
qed (simp_all add: bits_of_bytes_def, presburger+)

lemma length_permute: "length (permute t x) = length t"
  by (simp add: permute_def)

lemma permute_inverse:
  assumes chk: "map (\<lambda>i. t2 ! (i - 1) - 1) t1 = [0..<length x]"
    and rng: "list_all (\<lambda>i. i - 1 < length t2) t1"
  shows "permute t1 (permute t2 x) = x"
proof -
  have "permute t1 (permute t2 x) = map (\<lambda>i. x ! (t2 ! (i - 1) - 1)) t1"
    using rng by (simp add: permute_def list_all_iff)
  also have "\<dots> = map (\<lambda>j. x ! j) (map (\<lambda>i. t2 ! (i - 1) - 1) t1)"
    by simp
  also have "\<dots> = x" by (simp only: chk map_nth)
  finally show ?thesis .
qed

lemma IP_FP_check: "map (\<lambda>i. FP ! (i - 1) - 1) IP = [0..<64]"
  by code_simp

lemma FP_IP_check: "map (\<lambda>i. IP ! (i - 1) - 1) FP = [0..<64]"
  by code_simp

lemma IP_range: "list_all (\<lambda>i. i - 1 < 64) IP"
  by code_simp

lemma FP_range: "list_all (\<lambda>i. i - 1 < 64) FP"
  by code_simp

lemma length_IP: "length IP = 64"
  by (simp add: IP_def)
lemma length_FP: "length FP = 64"
  by (simp add: FP_def)

lemma permute_IP_FP:
  assumes "length x = 64"
  shows "permute IP (permute FP x) = x"
proof (rule permute_inverse)
  show "map (\<lambda>i. FP ! (i - 1) - 1) IP = [0..<length x]"
    unfolding assms by (rule IP_FP_check)
  show "list_all (\<lambda>i. i - 1 < length FP) IP"
    using IP_range by (simp only: length_FP)
qed

lemma permute_FP_IP:
  assumes "length x = 64"
  shows "permute FP (permute IP x) = x"
proof (rule permute_inverse)
  show "map (\<lambda>i. IP ! (i - 1) - 1) FP = [0..<length x]"
    unfolding assms by (rule FP_IP_check)
  show "list_all (\<lambda>i. i - 1 < length IP) FP"
    using FP_range by (simp only: length_IP)
qed

lemma length_xor_bits: "length (xor_bits a b) = min (length a) (length b)"
  by (simp add: xor_bits_def)

lemma xor_bits_cancel: "length a = length b \<Longrightarrow> xor_bits (xor_bits a b) b = a"
  by (induction a b rule: list_induct2) (auto simp: xor_bits_def)

lemma length_xor_bytes: "length (xor_bytes a b) = min (length a) (length b)"
  by (simp add: xor_bytes_def)

lemma xor_bytes_cancel: "length a = length b \<Longrightarrow> xor_bytes (xor_bytes a b) b = a"
  by (induction a b rule: list_induct2) (auto simp: xor_bytes_def xor.assoc)

lemma length_f_des: "length (f_des r k) = 32"
  by (simp add: f_des_def Let_def length_permute P_table_def)

lemma rounds_append: "rounds (ks @ ks') lr = rounds ks' (rounds ks lr)"
  by (induction ks lr rule: rounds.induct) simp_all

lemma rounds_length:
  "length l = 32 \<Longrightarrow> length r = 32 \<Longrightarrow> rounds ks (l, r) = (l', r') \<Longrightarrow> length l' = 32 \<and> length r' = 32"
proof (induction ks arbitrary: l r)
  case Nil
  then show ?case by simp
next
  case (Cons k ks)
  have "length (xor_bits l (f_des r k)) = 32"
    using Cons.prems(1) by (simp add: length_xor_bits length_f_des)
  moreover have "rounds ks (r, xor_bits l (f_des r k)) = (l', r')"
    using Cons.prems(3) by simp
  ultimately show ?case using Cons.IH Cons.prems(2) by blast
qed

lemma rounds_inverse:
  "length l = 32 \<Longrightarrow> length r = 32 \<Longrightarrow> rounds ks (l, r) = (l', r') \<Longrightarrow> rounds (rev ks) (r', l') = (r, l)"
proof (induction ks arbitrary: l r)
  case Nil
  then show ?case by simp
next
  case (Cons k ks)
  have step: "rounds ks (r, xor_bits l (f_des r k)) = (l', r')"
    using Cons.prems(3) by simp
  have len: "length (xor_bits l (f_des r k)) = 32"
    using Cons.prems(1) by (simp add: length_xor_bits length_f_des)
  have "rounds (rev ks) (r', l') = (xor_bits l (f_des r k), r)"
    using Cons.IH [OF Cons.prems(2) len step] .
  then have "rounds (rev (k # ks)) (r', l') = (r, xor_bits (xor_bits l (f_des r k)) (f_des r k))"
    by (simp add: rounds_append)
  then show ?case using Cons.prems(1) by (simp add: xor_bits_cancel length_f_des)
qed

lemma length_des_block: "length (des_block ks blk) = 8"
  by (simp add: des_block_def Let_def split_beta length_bytes_of_bits length_permute length_FP)

lemma des_block_inverse:
  assumes "length blk = 8"
  shows "des_block (rev ks) (des_block ks blk) = blk"
proof -
  define x where "x = permute IP (bits_of_bytes blk)"
  have lx: "length x = 64" by (simp add: x_def length_permute length_IP)
  obtain l' r' where r1: "rounds ks (take 32 x, drop 32 x) = (l', r')"
    by (cases "rounds ks (take 32 x, drop 32 x)")
  have ll: "length l' = 32 \<and> length r' = 32"
    using rounds_length [OF _ _ r1] lx by simp
  have enc: "des_block ks blk = bytes_of_bits (permute FP (r' @ l'))"
    using r1 by (simp add: des_block_def x_def [symmetric])
  have "bits_of_bytes (des_block ks blk) = permute FP (r' @ l')"
    unfolding enc by (rule bits_of_bytes_of_bits) (simp add: length_permute length_FP)
  then have x': "permute IP (bits_of_bytes (des_block ks blk)) = r' @ l'"
    using ll by (simp add: permute_IP_FP)
  have r2: "rounds (rev ks) (r', l') = (drop 32 x, take 32 x)"
    using rounds_inverse [OF _ _ r1] lx by simp
  have "des_block (rev ks) (des_block ks blk) = bytes_of_bits (permute FP (take 32 x @ drop 32 x))"
    using ll r2 by (simp add: des_block_def [of "rev ks"] x')
  also have "\<dots> = bytes_of_bits (bits_of_bytes blk)"
    using assms by (simp add: x_def permute_FP_IP length_bits_of_bytes)
  finally show ?thesis by (simp add: bytes_of_bits_of_bytes)
qed

lemma des_decrypt_encrypt_block:
  "length blk = 8 \<Longrightarrow> des_decrypt_block key (des_encrypt_block key blk) = blk"
  by (simp add: des_decrypt_block_def des_encrypt_block_def des_block_inverse)

lemma length_des_encrypt_block: "length (des_encrypt_block key blk) = 8"
  by (simp add: des_encrypt_block_def length_des_block)

lemma length_cbc_encrypt:
  assumes enc: "\<And>b. length (enc b) = 8"
  shows "8 dvd length data \<Longrightarrow> length (cbc_encrypt enc prev data) = length data"
proof (induction "length data" arbitrary: prev data rule: less_induct)
  case less
  show ?case
  proof (cases "data = []")
    case True
    then show ?thesis by (simp add: cbc_encrypt.simps)
  next
    case False
    with less.prems have ge: "8 \<le> length data" by (auto dest: dvd_imp_le)
    then have d: "8 dvd length (drop 8 data)" using less.prems by (simp add: dvd_diff_nat)
    have "length (cbc_encrypt enc (enc (xor_bytes (take 8 data) prev)) (drop 8 data)) = length (drop 8 data)"
      using ge d by (intro less.hyps) simp_all
    then show ?thesis using False ge
      by (subst cbc_encrypt.simps) (simp add: Let_def enc)
  qed
qed

lemma cbc_roundtrip:
  assumes inv: "\<And>b. length b = 8 \<Longrightarrow> dec (enc b) = b"
    and enc: "\<And>b. length (enc b) = 8"
  shows "length prev = 8 \<Longrightarrow> 8 dvd length data \<Longrightarrow>
         cbc_decrypt dec prev (cbc_encrypt enc prev data) = data"
proof (induction "length data" arbitrary: prev data rule: less_induct)
  case less
  show ?case
  proof (cases "data = []")
    case True
    then show ?thesis by (simp add: cbc_encrypt.simps cbc_decrypt.simps)
  next
    case False
    with less.prems have ge: "8 \<le> length data" by (auto dest: dvd_imp_le)
    then have d: "8 dvd length (drop 8 data)" using less.prems by (simp add: dvd_diff_nat)
    define x where "x = xor_bytes (take 8 data) prev"
    define c where "c = enc x"
    have lx: "length x = 8" using ge less.prems(1) by (simp add: x_def length_xor_bytes)
    have lc: "length c = 8" by (simp add: c_def enc)
    have IH: "cbc_decrypt dec c (cbc_encrypt enc c (drop 8 data)) = drop 8 data"
      using ge d lc by (intro less.hyps) simp_all
    have e: "cbc_encrypt enc prev data = c @ cbc_encrypt enc c (drop 8 data)"
      using False by (subst cbc_encrypt.simps) (simp add: Let_def c_def x_def)
    have "dec c = x" using inv [OF lx] by (simp add: c_def)
    then have xd: "xor_bytes (dec c) prev = take 8 data"
      using ge less.prems(1) by (simp add: x_def xor_bytes_cancel)
    have cne: "c \<noteq> []" using lc by auto
    have "cbc_decrypt dec prev (c @ cbc_encrypt enc c (drop 8 data)) = take 8 data @ drop 8 data"
      using lc IH cne xd by (subst cbc_decrypt.simps) (simp add: Let_def)
    then show ?thesis by (simp add: e)
  qed
qed

lemma fill_args_eq:
  "length buf = 500 \<Longrightarrow> fill_args buf data = take 8 buf @ take 492 data @ drop (8 + length data) buf"
proof (induction data rule: rev_induct)
  case Nil
  then show ?case by (simp add: fill_args_def)
next
  case (snoc x xs)
  have IH: "fill_args buf xs = take 8 buf @ take 492 xs @ drop (8 + length xs) buf"
    using snoc by simp
  have step: "fill_args buf (xs @ [x]) =
      (if 8 + length xs < 500 then (fill_args buf xs)[8 + length xs := x] else fill_args buf xs)"
    by (simp add: fill_args_def enumerate_append_eq)
  show ?case
  proof (cases "8 + length xs < 500")
    case True
    then have "8 + length xs < length buf" using snoc.prems by simp
    then have "drop (8 + length xs) buf = buf ! (8 + length xs) # drop (Suc (8 + length xs)) buf"
      by (rule Cons_nth_drop_Suc [symmetric])
    then show ?thesis using True snoc.prems
      by (simp add: step IH list_update_append)
  next
    case False
    then show ?thesis using snoc.prems by (simp add: step IH)
  qed
qed

lemma length_fill_args: "length (fill_args buf data) = length buf"
  unfolding fill_args_def by (induction data rule: rev_induct) (simp_all add: enumerate_append_eq)

lemma length_header_plain: "length (header_plain now cmd d) = 500"
  by (simp add: header_plain_def Let_def pack_into_def pack_u32_le_def length_fill_args split: option.split)

lemma le32_sum:
  fixes w :: int
  assumes "0 \<le> w" "w < 4294967296"
  shows "w mod 256 + 256 * (w div 256 mod 256) + 65536 * (w div 65536 mod 256)
           + 16777216 * (w div 16777216 mod 256) = w"
proof -
  define a where "a = w div 256"
  define b where "b = a div 256"
  define c where "c = b div 256"
  have 1: "w = 256 * a + w mod 256" by (simp add: a_def)
  have 2: "a = 256 * b + a mod 256" by (simp add: b_def)
  have 3: "b = 256 * c + b mod 256" by (simp add: c_def)
  have b': "b = w div 65536" using assms(1) by (simp add: b_def a_def zdiv_zmult2_eq)
  have c': "c = w div 16777216" using assms(1) by (simp add: c_def b' zdiv_zmult2_eq)
  have "0 \<le> c" using assms(1) by (simp add: c' pos_imp_zdiv_nonneg_iff)
  moreover have "c < 256" using assms unfolding c' by arith
  ultimately have 4: "c mod 256 = c" by simp
  have "w mod 256 + 256 * (a mod 256) + 65536 * (b mod 256) + 16777216 * (c mod 256) = w"
    using 1 2 3 4 by linarith
  then show ?thesis by (simp only: a_def [symmetric] b' [symmetric] c' [symmetric])
qed

lemma ts_mod: "ts v = v mod 4294967296"
  using take_bit_eq_mask [of 32 v] by (simp add: ts_def take_bit_eq_mod mask_eq_exp_minus_1)

lemma ts_range: "0 \<le> ts v \<and> ts v < 4294967296"
  by (simp add: ts_mod)

lemma uint_pack: "map uint (pack_u32_le v) = [v mod 256, v div 256 mod 256, v div 65536 mod 256, v div 16777216 mod 256]"
  by (simp add: pack_u32_le_def uint_word_of_int_eq take_bit_eq_mod drop_bit_eq_div)

section \<open>Properties of the command frame\<close>

lemma replicate4: "replicate 4 x = [x, x, x, x]"
  by (simp add: numeral_eq_Suc)

lemma length_pack_u32_le: "length (pack_u32_le v) = 4"
  by (simp add: pack_u32_le_def)

lemma base_buf:
  assumes "length bs = 4"
  shows "pack_into ((replicate 500 0)[0 := c, 2 := 0x1A, 3 := 0x6D]) 4 bs
           = [c, 0, 0x1A, 0x6D] @ bs @ replicate 492 (0::byte)"
proof -
  have "replicate 500 (0::byte) = replicate (4 + 496) 0" by simp
  also have "\<dots> = replicate 4 0 @ replicate 496 0" by (rule replicate_add)
  finally have r: "replicate 500 (0::byte) = [0, 0, 0, 0] @ replicate 496 0"
    by (simp only: replicate4)
  have u: "([0, 0, 0, 0] @ replicate 496 (0::byte))[0 := c, 2 := 0x1A, 3 := 0x6D]
             = [c, 0, 0x1A, 0x6D] @ replicate 496 0"
    by (simp add: list_update_append)
  show ?thesis unfolding r u pack_into_def using assms by simp
qed

lemma header_plain_base:
  "header_plain now cmd d =
     (let buf = [word_of_int (cmd AND 0xFF), 0, 0x1A, 0x6D] @ pack_u32_le (ts now) @ replicate 492 0
      in case d of None \<Rightarrow> buf | Some a \<Rightarrow> if a = [] then buf else fill_args buf a)"
  unfolding header_plain_def Let_def base_buf [OF length_pack_u32_le] ..

lemma header_plain_Some:
  assumes "length args \<le> 492"
  shows "header_plain now cmd (Some args) =
           [word_of_int (cmd AND 0xFF), 0, 0x1A, 0x6D] @ pack_u32_le (ts now) @ args
             @ replicate (492 - length args) 0"
proof (cases "args = []")
  case True
  then show ?thesis by (simp add: header_plain_base)
next
  case False
  define H where "H = [word_of_int (cmd AND 0xFF), 0, 0x1A, 0x6D] @ pack_u32_le (ts now)"
  define R where "R = replicate 492 (0::byte)"
  have lH: "length H = 8" by (simp add: H_def length_pack_u32_le)
  have lR: "length R = 492" by (simp add: R_def)
  have f: "fill_args (H @ R) args = take 8 (H @ R) @ take 492 args @ drop (8 + length args) (H @ R)"
    by (rule fill_args_eq) (simp add: lH lR)
  have t: "take 8 (H @ R) = H" using lH by simp
  have d: "drop (8 + length args) (H @ R) = replicate (492 - length args) 0"
    using lH by (simp add: R_def)
  have a: "take 492 args = args" using assms by simp
  have "header_plain now cmd (Some args) = fill_args (H @ R) args"
    using False by (simp add: header_plain_base H_def R_def)
  then have "header_plain now cmd (Some args) = H @ args @ replicate (492 - length args) 0"
    by (simp only: f t d a)
  then show ?thesis by (simp add: H_def)
qed

lemma header_plain_None:
  "header_plain now cmd None =
     [word_of_int (cmd AND 0xFF), 0, 0x1A, 0x6D] @ pack_u32_le (ts now) @ replicate 492 0"
  by (simp add: header_plain_base)

lemma length_des_encrypt:
  assumes l: "length data = 500"
  shows "length (des_encrypt data) = 504"
proof -
  have "length (cbc_encrypt (des_encrypt_block DES_KEY) DES_KEY (data @ replicate 4 4))
          = length (data @ replicate 4 (4::byte))"
    by (rule length_cbc_encrypt) (simp_all add: length_des_encrypt_block l)
  then show ?thesis by (simp add: des_encrypt_def Let_def l)
qed

lemma des_encrypt_500:
  "length data = 500 \<Longrightarrow>
     des_encrypt data = cbc_encrypt (des_encrypt_block DES_KEY) DES_KEY (data @ replicate 4 4)"
  by (simp add: des_encrypt_def Let_def)

lemma make_header_layout:
  "make_header now cmd d = des_encrypt (header_plain now cmd d) @ replicate 6 0 @ [0xA1, 0x1A]"
proof -
  define E where "E = des_encrypt (header_plain now cmd d)"
  have lE: "length E = 504" by (simp add: E_def length_des_encrypt length_header_plain)
  have "replicate 512 (0::byte) = replicate (504 + (6 + 2)) 0" by simp
  also have "\<dots> = replicate 504 0 @ replicate 6 0 @ replicate 2 0"
    by (simp only: replicate_add)
  finally have r: "drop 504 (replicate 512 (0::byte)) = replicate 6 0 @ [0, 0]"
    by (simp add: numeral_2_eq_2)
  have "make_header now cmd d = (E @ replicate 6 0 @ [0, 0])[510 := 0xA1, 511 := 0x1A]"
    unfolding make_header_def Let_def E_def [symmetric] lE r using lE by simp
  also have "\<dots> = E @ replicate 6 0 @ [0xA1, 0x1A]"
    by (simp add: list_update_append lE)
  finally show ?thesis by (simp add: E_def)
qed

lemma take_504_make_header:
  "take 504 (make_header now cmd d) = des_encrypt (header_plain now cmd d)"
  by (simp add: make_header_layout length_des_encrypt length_header_plain)

lemma decrypt_header:
  "cbc_decrypt (des_decrypt_block DES_KEY) DES_KEY (des_encrypt (header_plain now cmd d))
     = header_plain now cmd d @ replicate 4 4"
proof -
  have "cbc_decrypt (des_decrypt_block DES_KEY) DES_KEY
          (cbc_encrypt (des_encrypt_block DES_KEY) DES_KEY (header_plain now cmd d @ replicate 4 4))
        = header_plain now cmd d @ replicate 4 4"
  proof (rule cbc_roundtrip)
    show "des_decrypt_block DES_KEY (des_encrypt_block DES_KEY b) = b" if "length b = 8" for b
      using that by (rule des_decrypt_encrypt_block)
    show "length (des_encrypt_block DES_KEY b) = 8" for b
      by (rule length_des_encrypt_block)
    show "length DES_KEY = 8" by (simp add: DES_KEY_def)
    show "8 dvd length (header_plain now cmd d @ replicate 4 (4::byte))"
      by (simp add: length_header_plain)
  qed
  then show ?thesis by (simp add: des_encrypt_500 length_header_plain)
qed

lemma uint_cmd_byte: "0 \<le> c \<Longrightarrow> c < 256 \<Longrightarrow> uint (word_of_int (c AND 0xFF) :: byte) = c"
proof -
  assume c: "0 \<le> c" "c < 256"
  have "c AND 0xFF = take_bit 8 c"
    using take_bit_eq_mask [of 8 c] by (simp add: mask_eq_exp_minus_1)
  also have "\<dots> = c" using c by (simp add: take_bit_int_eq_self)
  finally show ?thesis using c by (simp add: uint_word_of_int_eq take_bit_int_eq_self)
qed

lemma pack_u32_le_sum:
  "uint (pack_u32_le (ts v) ! 0) + 256 * uint (pack_u32_le (ts v) ! 1)
     + 65536 * uint (pack_u32_le (ts v) ! 2) + 16777216 * uint (pack_u32_le (ts v) ! 3) = ts v"
proof -
  have n0: "uint (pack_u32_le (ts v) ! 0) = ts v mod 256"
    by (simp add: pack_u32_le_def uint_word_of_int_eq take_bit_eq_mod)
  have n1: "uint (pack_u32_le (ts v) ! 1) = ts v div 256 mod 256"
    by (simp add: pack_u32_le_def uint_word_of_int_eq take_bit_eq_mod drop_bit_eq_div)
  have n2: "uint (pack_u32_le (ts v) ! 2) = ts v div 65536 mod 256"
    by (simp add: pack_u32_le_def uint_word_of_int_eq take_bit_eq_mod drop_bit_eq_div)
  have n3: "uint (pack_u32_le (ts v) ! 3) = ts v div 16777216 mod 256"
    by (simp add: pack_u32_le_def uint_word_of_int_eq take_bit_eq_mod drop_bit_eq_div)
  have r: "0 \<le> ts v" "ts v < 4294967296" using ts_range [of v] by blast+
  show ?thesis unfolding n0 n1 n2 n3 by (rule le32_sum [OF r])
qed

text \<open>
  C1. For every command and every argument byte string (in particular every one of at most
  492 bytes, and also when no arguments are given), \<^verbatim>\<open>_make_header\<close> returns exactly 512
  bytes, and bytes 510 and 511 of the frame are \<open>0xA1\<close> and \<open>0x1A\<close>.
\<close>

theorem make_header_512_trailer:
  "length (make_header now_ms cmd data_at_8) = 512
   \<and> make_header now_ms cmd data_at_8 ! 510 = 0xA1
   \<and> make_header now_ms cmd data_at_8 ! 511 = 0x1A"
  by (simp add: make_header_def Let_def nth_list_update)

text \<open>
  C2. Round trip. For every command and every argument byte string of at most 492 bytes,
  DES-CBC decryption with key = IV = \<^verbatim>\<open>slv3tuzx\<close> of the ciphertext region of the frame (its
  first 504 bytes) gives the command byte, \<open>0x00\<close>, \<open>0x1A\<close>, \<open>0x6D\<close>, the four timestamp
  bytes, the arguments from offset 8 on, zeros up to offset 499, and the four PKCS7 padding
  bytes of value 4. The four timestamp bytes are the little-endian digits of the timestamp
  \<^verbatim>\<open>_ts()\<close> used, and the command byte is the command itself when that is between 0 and 255.
\<close>

theorem make_header_roundtrip:
  assumes "length args \<le> 492"
  shows "cbc_decrypt (des_decrypt_block DES_KEY) DES_KEY (take 504 (make_header now_ms cmd (Some args)))
           = [word_of_int (cmd AND 0xFF), 0, 0x1A, 0x6D] @ pack_u32_le (ts now_ms) @ args
               @ replicate (492 - length args) 0 @ replicate 4 4
         \<and> uint (pack_u32_le (ts now_ms) ! 0) + 256 * uint (pack_u32_le (ts now_ms) ! 1)
             + 65536 * uint (pack_u32_le (ts now_ms) ! 2)
             + 16777216 * uint (pack_u32_le (ts now_ms) ! 3) = ts now_ms
         \<and> (0 \<le> cmd \<and> cmd < 256 \<longrightarrow> uint (word_of_int (cmd AND 0xFF) :: byte) = cmd)"
proof (intro conjI impI)
  have "cbc_decrypt (des_decrypt_block DES_KEY) DES_KEY (take 504 (make_header now_ms cmd (Some args)))
          = header_plain now_ms cmd (Some args) @ replicate 4 4"
    by (simp only: take_504_make_header decrypt_header)
  also have "\<dots> = ([word_of_int (cmd AND 0xFF), 0, 0x1A, 0x6D] @ pack_u32_le (ts now_ms) @ args
               @ replicate (492 - length args) 0) @ replicate 4 4"
    by (simp only: header_plain_Some [OF assms])
  finally show "cbc_decrypt (des_decrypt_block DES_KEY) DES_KEY (take 504 (make_header now_ms cmd (Some args)))
           = [word_of_int (cmd AND 0xFF), 0, 0x1A, 0x6D] @ pack_u32_le (ts now_ms) @ args
               @ replicate (492 - length args) 0 @ replicate 4 4"
    by (simp only: append_assoc)
  show "uint (pack_u32_le (ts now_ms) ! 0) + 256 * uint (pack_u32_le (ts now_ms) ! 1)
             + 65536 * uint (pack_u32_le (ts now_ms) ! 2)
             + 16777216 * uint (pack_u32_le (ts now_ms) ! 3) = ts now_ms"
    by (rule pack_u32_le_sum)
  show "uint (word_of_int (cmd AND 0xFF) :: byte) = cmd" if "0 \<le> cmd \<and> cmd < 256"
    using that by (simp only: uint_cmd_byte)
qed

text \<open>C2 at the command 14 with the arguments 1, 2, 3 and the clock at 1000 ms.\<close>

theorem make_header_roundtrip_witness:
  "length [1, 2, 3 :: byte] \<le> 492
   \<and> cbc_decrypt (des_decrypt_block DES_KEY) DES_KEY (take 504 (make_header 1000 14 (Some [1, 2, 3])))
       = [word_of_int (14 AND 0xFF), 0, 0x1A, 0x6D] @ pack_u32_le (ts 1000) @ [1, 2, 3]
           @ replicate (492 - length [1, 2, 3 :: byte]) 0 @ replicate 4 4
   \<and> uint (word_of_int (14 AND 0xFF) :: byte) = 14"
proof -
  have h: "length [1, 2, 3 :: byte] \<le> 492" by simp
  have c: "(0::int) \<le> 14 \<and> (14::int) < 256" by simp
  from make_header_roundtrip [OF h, of 1000 14] c h show ?thesis by blast
qed

text \<open>
  C3 says that the trailer cuts the ciphertext, so that its last two bytes are not in the
  frame. They are: for the command 10 without arguments at clock 0 the ciphertext has 504
  bytes, the first 504 bytes of the frame are the ciphertext, and bytes 502 and 503 of the
  frame are bytes 502 and 503 of the ciphertext.
\<close>

theorem ciphertext_truncated_counterexample:
  "length (des_encrypt (header_plain 0 10 None)) = 504
   \<and> take 504 (make_header 0 10 None) = des_encrypt (header_plain 0 10 None)
   \<and> make_header 0 10 None ! 502 = des_encrypt (header_plain 0 10 None) ! 502
   \<and> make_header 0 10 None ! 503 = des_encrypt (header_plain 0 10 None) ! 503"
  by (simp add: make_header_layout length_des_encrypt length_header_plain nth_append)

text \<open>
  C3 as the code has it. The ciphertext of the 500-byte buffer has 504 bytes and the frame is
  that ciphertext in full (bytes 0 to 503), six zero bytes (504 to 509) and the trailer
  \<open>0xA1, 0x1A\<close> (510 and 511): the trailer overwrites zero bytes of the packet, never
  ciphertext.
\<close>

theorem make_header_carries_whole_ciphertext:
  "length (des_encrypt (header_plain now_ms cmd data_at_8)) = 504
   \<and> make_header now_ms cmd data_at_8
       = des_encrypt (header_plain now_ms cmd data_at_8) @ replicate 6 0 @ [0xA1, 0x1A]"
  by (simp add: length_des_encrypt length_header_plain make_header_layout [symmetric])

section \<open>Properties of the LCD controller\<close>

lemma send_cmd_eq:
  "send_cmd s cmd d =
     (result_of (usb s (n_usb s)),
      s\<lparr>n_clock := Suc (n_clock s), n_usb := Suc (n_usb s),
        events := events s @ [UsbSend (make_header (clock s (n_clock s)) cmd d)]\<rparr>)"
  by (simp add: send_cmd_def send_and_read_def Let_def)

lemma uint_byte_of_int: "0 \<le> k \<Longrightarrow> k < 256 \<Longrightarrow> uint (word_of_int k :: byte) = k"
  by (simp add: uint_word_of_int_eq take_bit_int_eq_self)

lemma or_push_bit:
  fixes k l :: int
  assumes "0 \<le> k" "k < 2 ^ n"
  shows "push_bit n l OR k = 2 ^ n * l + k"
proof -
  have "push_bit n l OR k = take_bit n k OR push_bit n l"
    using assms by (simp add: take_bit_int_eq_self or.commute)
  also have "\<dots> = concat_bit n k l" by (simp add: concat_bit_def)
  also have "\<dots> = take_bit n k + push_bit n l" by (rule concat_bit_eq)
  also have "\<dots> = 2 ^ n * l + k" using assms by (simp add: take_bit_int_eq_self push_bit_eq_mult)
  finally show ?thesis .
qed

lemma uint_byte_range: "0 \<le> uint (x::byte) \<and> uint x < 256"
  using uint_lt2p [of x] by simp

lemma be32_or:
  fixes a b c d :: byte
  shows "push_bit 24 (uint a) OR push_bit 16 (uint b) OR push_bit 8 (uint c) OR uint d
           = 16777216 * uint a + 65536 * uint b + 256 * uint c + uint d"
proof -
  have 1: "push_bit 8 (uint c) OR uint d = 256 * uint c + uint d"
    using or_push_bit [of "uint d" 8 "uint c"] uint_byte_range [of d] by simp
  have r1: "0 \<le> 256 * uint c + uint d" "256 * uint c + uint d < 2 ^ 16"
    using uint_byte_range [of c] uint_byte_range [of d] by simp_all
  have 2: "push_bit 16 (uint b) OR (256 * uint c + uint d) = 65536 * uint b + (256 * uint c + uint d)"
    using or_push_bit [OF r1, of "uint b"] by simp
  have r2: "0 \<le> 65536 * uint b + (256 * uint c + uint d)" "65536 * uint b + (256 * uint c + uint d) < 2 ^ 24"
    using uint_byte_range [of b] uint_byte_range [of c] uint_byte_range [of d] by simp_all
  have 3: "push_bit 24 (uint a) OR (65536 * uint b + (256 * uint c + uint d))
             = 16777216 * uint a + (65536 * uint b + (256 * uint c + uint d))"
    using or_push_bit [OF r2, of "uint a"] by simp
  show ?thesis by (simp only: 1 2 3 add.assoc)
qed

lemma check_h264_block_Resp:
  assumes "usb s (n_usb s) = Resp r" "11 < length r"
  shows "check_h264_block s =
           (let size = 16777216 * uint (r ! 8) + 65536 * uint (r ! 9) + 256 * uint (r ! 10) + uint (r ! 11);
                s1 = s\<lparr>n_clock := Suc (n_clock s), n_usb := Suc (n_usb s),
                       events := events s @ [UsbSend (make_header (clock s (n_clock s)) CMD_GET_H264_BLOCK None)]\<rparr>
            in if 0 < size then (Inr size, s1\<lparr>h264_buf_len := size\<rparr>) else (Inr (h264_buf_len s), s1))"
proof -
  have ne: "r \<noteq> []" using assms(2) by auto
  show ?thesis
    using assms ne by (simp add: check_h264_block_def send_cmd_eq be32_or Let_def)
qed

lemma check_h264_block_unanswered:
  assumes "reported_size (usb s (n_usb s)) = None"
  shows "h264_buf_len (snd (check_h264_block s)) = h264_buf_len s"
  using assms
  by (cases "usb s (n_usb s)")
     (auto simp: check_h264_block_def send_cmd_eq reported_size_def Let_def split: if_splits)

lemma reports_1000:
  "reported_size (usb (LCDDevice_init (\<lambda>p. None) (\<lambda>k. 0) (\<lambda>k. Resp (replicate 8 0 @ [0, 0, 3, 232])))
        (n_usb (LCDDevice_init (\<lambda>p. None) (\<lambda>k. 0) (\<lambda>k. Resp (replicate 8 0 @ [0, 0, 3, 232]))))) = Some 1000
   \<and> h264_buf_len (snd (check_h264_block
        (LCDDevice_init (\<lambda>p. None) (\<lambda>k. 0) (\<lambda>k. Resp (replicate 8 0 @ [0, 0, 3, 232]))))) = 1000"
proof -
  let ?r = "replicate 8 0 @ [0, 0, 3, 232 :: byte]"
  have u: "usb (LCDDevice_init (\<lambda>p. None) (\<lambda>k. 0) (\<lambda>k. Resp (replicate 8 0 @ [0, 0, 3, 232])))
        (n_usb (LCDDevice_init (\<lambda>p. None) (\<lambda>k. 0) (\<lambda>k. Resp (replicate 8 0 @ [0, 0, 3, 232])))) = Resp ?r" by (simp add: LCDDevice_init_def)
  have l: "11 < length ?r" by simp
  have n: "?r ! 8 = 0" "?r ! 9 = 0" "?r ! 10 = 3" "?r ! 11 = 232"
    by (simp_all add: nth_append)
  have "reported_size (usb (LCDDevice_init (\<lambda>p. None) (\<lambda>k. 0) (\<lambda>k. Resp (replicate 8 0 @ [0, 0, 3, 232])))
        (n_usb (LCDDevice_init (\<lambda>p. None) (\<lambda>k. 0) (\<lambda>k. Resp (replicate 8 0 @ [0, 0, 3, 232]))))) = Some 1000"
    unfolding u reported_size_def using n by simp
  moreover have "h264_buf_len (snd (check_h264_block
        (LCDDevice_init (\<lambda>p. None) (\<lambda>k. 0) (\<lambda>k. Resp (replicate 8 0 @ [0, 0, 3, 232]))))) = 1000"
    unfolding check_h264_block_Resp [OF u l] using n by (simp add: Let_def)
  ultimately show ?thesis by simp
qed

text \<open>
  C4 says that the capacity stored by \<^verbatim>\<open>check_h264_block\<close> is the maximum of the reported
  size and 202752. On a new \<^verbatim>\<open>LCDDevice\<close> whose device reports 1000 (bytes 8 to 11 of the
  answer are 0, 0, 3, 232) the stored capacity is 1000, and the maximum of 1000 and 202752
  is not 1000.
\<close>

theorem check_h264_block_counterexample:
  "reported_size (usb (LCDDevice_init (\<lambda>p. None) (\<lambda>k. 0) (\<lambda>k. Resp (replicate 8 0 @ [0, 0, 3, 232])))
        (n_usb (LCDDevice_init (\<lambda>p. None) (\<lambda>k. 0) (\<lambda>k. Resp (replicate 8 0 @ [0, 0, 3, 232]))))) = Some 1000
   \<and> h264_buf_len (snd (check_h264_block
        (LCDDevice_init (\<lambda>p. None) (\<lambda>k. 0) (\<lambda>k. Resp (replicate 8 0 @ [0, 0, 3, 232]))))) = 1000
   \<and> max (1000::int) 202752 \<noteq> 1000"
  using reports_1000 by simp

text \<open>
  C4 as the code has it. When the device reports a positive size, \<^verbatim>\<open>check_h264_block\<close>
  returns it and stores it in \<^verbatim>\<open>h264_buf_len\<close>, whether it is above or below 202752. When the
  query is not answered (no response, an exception, a response of fewer than 12 bytes) or
  the reported size is 0, \<^verbatim>\<open>h264_buf_len\<close> keeps its value, which is 202752 on a new
  \<^verbatim>\<open>LCDDevice\<close>.
\<close>

theorem check_h264_block_stores_size:
  "(reported_size (usb s (n_usb s)) = Some sz \<and> 0 < sz \<longrightarrow>
      fst (check_h264_block s) = Inr sz \<and> h264_buf_len (snd (check_h264_block s)) = sz)
   \<and> (reported_size (usb t (n_usb t)) = None \<or> reported_size (usb t (n_usb t)) = Some 0 \<longrightarrow>
        h264_buf_len (snd (check_h264_block t)) = h264_buf_len t)
   \<and> h264_buf_len (LCDDevice_init fs clk dev) = 202752"
proof (intro conjI impI)
  assume a: "reported_size (usb s (n_usb s)) = Some sz \<and> 0 < sz"
  then obtain r where r: "usb s (n_usb s) = Resp r" "11 < length r"
    and sz: "sz = 16777216 * uint (r ! 8) + 65536 * uint (r ! 9) + 256 * uint (r ! 10) + uint (r ! 11)"
    by (cases "usb s (n_usb s)") (auto simp: reported_size_def split: if_splits)
  show "fst (check_h264_block s) = Inr sz"
    using a sz by (simp add: check_h264_block_Resp [OF r] Let_def)
  show "h264_buf_len (snd (check_h264_block s)) = sz"
    using a sz by (simp add: check_h264_block_Resp [OF r] Let_def)
next
  assume a: "reported_size (usb t (n_usb t)) = None \<or> reported_size (usb t (n_usb t)) = Some 0"
  show "h264_buf_len (snd (check_h264_block t)) = h264_buf_len t"
    using a
    by (cases "usb t (n_usb t)")
       (auto simp: check_h264_block_def send_cmd_eq reported_size_def be32_or Let_def split: if_splits)
next
  show "h264_buf_len (LCDDevice_init fs clk dev) = 202752"
    by (simp add: LCDDevice_init_def)
qed

text \<open>
  C4 on a new device that reports 1000, and on a new device that does not answer.
\<close>

theorem check_h264_block_stores_size_witness:
  "reported_size (usb (LCDDevice_init (\<lambda>p. None) (\<lambda>k. 0) (\<lambda>k. Resp (replicate 8 0 @ [0, 0, 3, 232])))
        (n_usb (LCDDevice_init (\<lambda>p. None) (\<lambda>k. 0) (\<lambda>k. Resp (replicate 8 0 @ [0, 0, 3, 232]))))) = Some 1000 \<and> (0::int) < 1000
   \<and> fst (check_h264_block
        (LCDDevice_init (\<lambda>p. None) (\<lambda>k. 0) (\<lambda>k. Resp (replicate 8 0 @ [0, 0, 3, 232])))) = Inr 1000
   \<and> h264_buf_len (snd (check_h264_block
        (LCDDevice_init (\<lambda>p. None) (\<lambda>k. 0) (\<lambda>k. Resp (replicate 8 0 @ [0, 0, 3, 232]))))) = 1000
   \<and> reported_size (usb (LCDDevice_init (\<lambda>p. None) (\<lambda>k. 0) (\<lambda>k. NoResp))
        (n_usb (LCDDevice_init (\<lambda>p. None) (\<lambda>k. 0) (\<lambda>k. NoResp)))) = None
   \<and> h264_buf_len (snd (check_h264_block (LCDDevice_init (\<lambda>p. None) (\<lambda>k. 0) (\<lambda>k. NoResp)))) = 202752"
proof -
  have hs: "reported_size (usb (LCDDevice_init (\<lambda>p. None) (\<lambda>k. 0) (\<lambda>k. Resp (replicate 8 0 @ [0, 0, 3, 232])))
        (n_usb (LCDDevice_init (\<lambda>p. None) (\<lambda>k. 0) (\<lambda>k. Resp (replicate 8 0 @ [0, 0, 3, 232]))))) = Some 1000 \<and> (0::int) < 1000"
    using reports_1000 by simp
  have ht: "reported_size (usb (LCDDevice_init (\<lambda>p. None) (\<lambda>k. 0) (\<lambda>k. NoResp))
        (n_usb (LCDDevice_init (\<lambda>p. None) (\<lambda>k. 0) (\<lambda>k. NoResp)))) = None
              \<or> reported_size (usb (LCDDevice_init (\<lambda>p. None) (\<lambda>k. 0) (\<lambda>k. NoResp))
        (n_usb (LCDDevice_init (\<lambda>p. None) (\<lambda>k. 0) (\<lambda>k. NoResp)))) = Some 0"
    by (simp add: LCDDevice_init_def reported_size_def)
  have n: "reported_size (usb (LCDDevice_init (\<lambda>p. None) (\<lambda>k. 0) (\<lambda>k. NoResp))
        (n_usb (LCDDevice_init (\<lambda>p. None) (\<lambda>k. 0) (\<lambda>k. NoResp)))) = None"
    by (simp add: LCDDevice_init_def reported_size_def)
  have d: "h264_buf_len (LCDDevice_init (\<lambda>p. None) (\<lambda>k. 0) (\<lambda>k. NoResp)) = 202752"
    by (simp add: LCDDevice_init_def)
  from check_h264_block_stores_size [of "LCDDevice_init (\<lambda>p. None) (\<lambda>k. 0) (\<lambda>k. Resp (replicate 8 0 @ [0, 0, 3, 232]))" 1000
          "LCDDevice_init (\<lambda>p. None) (\<lambda>k. 0) (\<lambda>k. NoResp)"] hs ht n d show ?thesis
    by simp
qed

text \<open>
  C6. \<^verbatim>\<open>set_brightness\<close> sends the command 14 with the single argument byte
  \<open>min 100 (max 0 level)\<close>, and \<^verbatim>\<open>set_framerate\<close> the command 15 with the single argument
  byte \<open>min 99 (max 1 fps)\<close>, for every integer: the frame handed to the device is the one
  built from that byte, so an input out of range is clamped and not rejected. Brightness
  -5 sends 0, 150 sends 100 and 50 sends 50; frame rate 0 sends 1 and 100 sends 99.
\<close>

theorem clamped_arguments:
  "set_brightness s level = send_cmd s CMD_BRIGHTNESS (Some [word_of_int (min 100 (max 0 level))])
   \<and> uint (word_of_int (min 100 (max 0 level)) :: byte) = min 100 (max 0 level)
   \<and> set_framerate s fps = send_cmd s CMD_SET_FRAMERATE (Some [word_of_int (min 99 (max 1 fps))])
   \<and> uint (word_of_int (min 99 (max 1 fps)) :: byte) = min 99 (max 1 fps)
   \<and> events (snd (set_brightness s level))
       = events s @ [UsbSend (make_header (clock s (n_clock s)) 14 (Some [word_of_int (min 100 (max 0 level))]))]
   \<and> events (snd (set_framerate s fps))
       = events s @ [UsbSend (make_header (clock s (n_clock s)) 15 (Some [word_of_int (min 99 (max 1 fps))]))]
   \<and> set_brightness s (- 5) = send_cmd s CMD_BRIGHTNESS (Some [0])
   \<and> set_brightness s 150 = send_cmd s CMD_BRIGHTNESS (Some [100])
   \<and> set_brightness s 50 = send_cmd s CMD_BRIGHTNESS (Some [50])
   \<and> set_framerate s 0 = send_cmd s CMD_SET_FRAMERATE (Some [1])
   \<and> set_framerate s 100 = send_cmd s CMD_SET_FRAMERATE (Some [99])"
proof -
  have b: "max 0 (min 100 level) = min 100 (max 0 level)" by simp
  have f: "max 1 (min 99 fps) = min 99 (max 1 fps)" by simp
  have ub: "uint (word_of_int (min 100 (max 0 level)) :: byte) = min 100 (max 0 level)"
    by (rule uint_byte_of_int) simp_all
  have uf: "uint (word_of_int (min 99 (max 1 fps)) :: byte) = min 99 (max 1 fps)"
    by (rule uint_byte_of_int) simp_all
  show ?thesis
    unfolding set_brightness_def set_framerate_def b f
    by (simp add: ub uf send_cmd_eq CMD_BRIGHTNESS_def CMD_SET_FRAMERATE_def)
qed

text \<open>
  C9. When the file does not exist, \<^verbatim>\<open>play_h264\<close> returns \<^verbatim>\<open>False\<close> and the state is the one it
  started from: nothing was handed to the device (no packet, no query of the buffer size,
  no \<^verbatim>\<open>stop_play\<close>), the clock was not read and \<^verbatim>\<open>h264_buf_len\<close> is unchanged.
\<close>

theorem play_h264_missing_file:
  assumes "files s filepath = None"
  shows "play_h264 s filepath loop play_cmd play_count = Some (Inr False, s)"
  using assms by (simp add: play_h264_def)

text \<open>C9 on a new device, for a path that the empty file system does not have.\<close>

theorem play_h264_missing_file_witness:
  "files (LCDDevice_init (\<lambda>p. None) (\<lambda>k. 0) (\<lambda>k. NoResp)) ''clip.h264'' = None
   \<and> play_h264 (LCDDevice_init (\<lambda>p. None) (\<lambda>k. 0) (\<lambda>k. NoResp)) ''clip.h264'' True 121 1
       = Some (Inr False, LCDDevice_init (\<lambda>p. None) (\<lambda>k. 0) (\<lambda>k. NoResp))
   \<and> events (LCDDevice_init (\<lambda>p. None) (\<lambda>k. 0) (\<lambda>k. NoResp)) = []
   \<and> n_usb (LCDDevice_init (\<lambda>p. None) (\<lambda>k. 0) (\<lambda>k. NoResp)) = 0"
proof -
  have h: "files (LCDDevice_init (\<lambda>p. None) (\<lambda>k. 0) (\<lambda>k. NoResp)) ''clip.h264'' = None"
    by (simp add: LCDDevice_init_def)
  from play_h264_missing_file [OF h, of True 121 1] h show ?thesis
    by (simp add: LCDDevice_init_def)
qed

section \<open>Flow control while streaming\<close>

declare stream_file.simps [simp del]

lemma polls_done_le: "polls_done n m idx dev u \<le> n"
  by (induction n arbitrary: u) simp_all

lemma polls_done_first:
  "k < n \<Longrightarrow> (\<forall>j<k. poll_continues m idx (dev (u + j))) \<Longrightarrow> \<not> poll_continues m idx (dev (u + k))
     \<Longrightarrow> polls_done n m idx dev u = Suc k"
proof (induction k arbitrary: n u)
  case 0
  then obtain n' where "n = Suc n'" by (cases n) auto
  with 0 show ?case by simp
next
  case (Suc k)
  then obtain n' where n: "n = Suc n'" by (cases n) auto
  have c0: "poll_continues m idx (dev u)" using Suc.prems(2) by force
  have "polls_done n' m idx dev (Suc u) = Suc k"
  proof (rule Suc.IH)
    show "k < n'" using Suc.prems(1) n by simp
    show "\<forall>j<k. poll_continues m idx (dev (Suc u + j))"
    proof (intro allI impI)
      fix j assume "j < k"
      then have "Suc j < Suc k" by simp
      with Suc.prems(2) have "poll_continues m idx (dev (u + Suc j))" by blast
      then show "poll_continues m idx (dev (Suc u + j))" by simp
    qed
    show "\<not> poll_continues m idx (dev (Suc u + k))" using Suc.prems(3) by simp
  qed
  with c0 n show ?case by simp
qed

lemma good_not_continues:
  "depth_at idx out = Some d \<Longrightarrow> d \<le> m \<Longrightarrow> \<not> poll_continues m idx out"
  by (cases out) (auto simp: poll_continues_def depth_at_def split: if_splits)

lemma wait_loop_state:
  "snd (wait_loop n s m idx) =
     s\<lparr>n_clock := n_clock s + polls_done n m idx (usb s) (n_usb s),
       n_usb := n_usb s + polls_done n m idx (usb s) (n_usb s),
       events := events s @ poll_events (clock s) (usb s) (n_clock s) (n_usb s)
                              (polls_done n m idx (usb s) (n_usb s))\<rparr>"
proof (induction n arbitrary: s)
  case 0
  show ?case by simp
next
  case (Suc n)
  show ?case
  proof (cases "usb s (n_usb s)")
    case (Resp r)
    then show ?thesis
      by (simp add: send_cmd_eq sleep_def Suc.IH poll_continues_def depth_at_def)
  next
    case NoResp
    then show ?thesis
      by (simp add: send_cmd_eq sleep_def Suc.IH poll_continues_def depth_at_def)
  next
    case (Raises e)
    then show ?thesis
      by (cases e) (simp_all add: send_cmd_eq sleep_def Suc.IH poll_continues_def depth_at_def)
  qed
qed

declare chunks_of.simps [simp del]

lemma slot_offset_eq: "buf_idx_of play_cmd = slot_offset play_cmd"
  by (simp add: buf_idx_of_def slot_offset_def CMD_START_PLAY_def CMD_START_PLAY1_def CMD_START_PLAY2_def)

lemma poll_result_shift:
  "poll_continues m idx (dev u) \<Longrightarrow> poll_result dev u (Suc p) = poll_result dev (Suc u) p"
  by (cases p; cases "dev u") (auto simp: poll_result_def poll_continues_def)

lemma poll_result_one:
  "\<not> poll_continues m idx (dev u) \<Longrightarrow>
     poll_result dev u (Suc 0) = (case dev u of Raises e \<Rightarrow> Inl e | Resp r \<Rightarrow> Inr () | NoResp \<Rightarrow> Inr ())"
  by (cases "dev u") (auto simp: poll_result_def poll_continues_def)

lemma wait_loop_result:
  "fst (wait_loop n s m idx) = poll_result (usb s) (n_usb s) (polls_done n m idx (usb s) (n_usb s))"
proof (induction n arbitrary: s)
  case 0
  show ?case by (simp add: poll_result_def)
next
  case (Suc n)
  show ?case
  proof (cases "poll_continues m idx (usb s (n_usb s))")
    case True
    have "fst (wait_loop (Suc n) s m idx)
            = poll_result (usb s) (Suc (n_usb s)) (polls_done n m idx (usb s) (Suc (n_usb s)))"
    proof (cases "usb s (n_usb s)")
      case (Resp r)
      with True show ?thesis
        by (auto simp: send_cmd_eq sleep_def Suc.IH poll_continues_def depth_at_def split: if_splits)
    next
      case NoResp
      then show ?thesis by (simp add: send_cmd_eq sleep_def Suc.IH)
    next
      case (Raises e)
      with True have "e = USBError" by (simp add: poll_continues_def)
      with Raises show ?thesis by (simp add: send_cmd_eq sleep_def Suc.IH)
    qed
    with True show ?thesis by (simp add: poll_result_shift [where dev = "usb s" and u = "n_usb s", OF True])
  next
    case False
    have "fst (wait_loop (Suc n) s m idx)
            = (case usb s (n_usb s) of Raises e \<Rightarrow> Inl e | Resp r \<Rightarrow> Inr () | NoResp \<Rightarrow> Inr ())"
    proof (cases "usb s (n_usb s)")
      case (Resp r)
      with False show ?thesis
        by (auto simp: send_cmd_eq sleep_def poll_continues_def depth_at_def split: if_splits)
    next
      case NoResp
      with False show ?thesis by (simp add: poll_continues_def)
    next
      case (Raises e)
      with False show ?thesis by (cases e) (simp_all add: send_cmd_eq sleep_def poll_continues_def)
    qed
    with False show ?thesis by (simp add: poll_result_one [where dev = "usb s" and u = "n_usb s", OF False])
  qed
qed

lemma wait_buffer_spec: "wait_buffer w 2 play_cmd = wait_spec w (slot_offset play_cmd)"
  by (rule prod_eqI)
     (simp_all add: wait_buffer_def wait_spec_def Let_def wait_loop_result wait_loop_state slot_offset_eq)

lemma send_chunk_spec:
  "send_chunk s play_cmd play_count (buf_idx_of play_cmd) chunk = chunk_spec s play_cmd play_count chunk"
proof (cases "usb s (n_usb s)")
  case (Resp r)
  then show ?thesis
    by (auto simp: send_chunk_def chunk_spec_def send_and_read_def sleep_def chunk_sent_def depth_at_def
                   Let_def wait_buffer_spec slot_offset_eq)
next
  case NoResp
  then show ?thesis
    by (simp add: send_chunk_def chunk_spec_def send_and_read_def sleep_def chunk_sent_def Let_def)
next
  case (Raises e)
  then show ?thesis
    by (simp add: send_chunk_def chunk_spec_def send_and_read_def Let_def)
qed

lemma stream_file_spec:
  "stream_file s buf_len play_cmd play_count (buf_idx_of play_cmd) rest
     = run_chunks s play_cmd play_count (chunks_of buf_len rest)"
proof (induction buf_len rest arbitrary: s rule: chunks_of.induct)
  case (1 n rest)
  show ?case
  proof (cases "fst (file_read n rest) = []")
    case True
    then show ?thesis
      by (subst stream_file.simps, subst chunks_of.simps) (simp add: Let_def)
  next
    case False
    show ?thesis
      by (subst stream_file.simps, subst chunks_of.simps)
         (simp add: Let_def False send_chunk_spec 1 [OF refl False] split: prod.splits sum.splits)
  qed
qed

lemma wait_spec_files: "files (snd (wait_spec w idx)) = files w"
  by (simp add: wait_spec_def Let_def)

lemma chunk_spec_files: "files (snd (chunk_spec s play_cmd play_count chunk)) = files s"
  by (cases "usb s (n_usb s)")
     (auto simp: chunk_spec_def chunk_sent_def wait_spec_files split: option.splits)

lemma run_chunks_files: "files (snd (run_chunks s play_cmd play_count cs)) = files s"
proof (induction cs arbitrary: s)
  case Nil
  show ?case by simp
next
  case (Cons c cs)
  have f: "files (snd (chunk_spec (s\<lparr>events := events s @ [FileRead c]\<rparr>) play_cmd play_count c)) = files s"
    by (simp add: chunk_spec_files)
  show ?case
  proof (cases "chunk_spec (s\<lparr>events := events s @ [FileRead c]\<rparr>) play_cmd play_count c")
    case (Pair r s1)
    with f have f1: "files s1 = files s" by simp
    show ?thesis
    proof (cases r)
      case (Inl e)
      with Pair f1 show ?thesis by simp
    next
      case (Inr u)
      with Pair f1 show ?thesis by (simp add: Cons.IH)
    qed
  qed
qed

lemma play_loop_spec:
  "files s filepath = Some content
     \<Longrightarrow> passes_spec n loop s play_cmd play_count (chunks_of buf_len content) = Some r
     \<Longrightarrow> play_loop s filepath loop buf_len play_cmd play_count (buf_idx_of play_cmd) = Some r"
proof (induction n arbitrary: s)
  case 0
  then show ?case by simp
next
  case (Suc n)
  show ?case
  proof (cases "run_chunks s play_cmd play_count (chunks_of buf_len content)")
    case (Pair res s1)
    have f1: "files s1 filepath = Some content"
      using run_chunks_files [of s play_cmd play_count "chunks_of buf_len content"] Pair Suc.prems(1)
      by simp
    show ?thesis
    proof (cases res)
      case (Inl e)
      have r: "r = (Inl e, s1)" using Suc.prems(2) Pair Inl by simp
      show ?thesis
        by (subst play_loop.simps) (simp add: stream_file_spec Suc.prems(1) Pair Inl r)
    next
      case (Inr u)
      show ?thesis
      proof (cases loop)
        case False
        have r: "r = (Inr (), s1)" using Suc.prems(2) Pair Inr False by simp
        show ?thesis
          by (subst play_loop.simps) (simp add: stream_file_spec Suc.prems(1) Pair Inr False r)
      next
        case True
        with Inr Pair Suc.prems(2)
        have "passes_spec n loop s1 play_cmd play_count (chunks_of buf_len content) = Some r"
          by simp
        then have "play_loop s1 filepath loop buf_len play_cmd play_count (buf_idx_of play_cmd) = Some r"
          by (rule Suc.IH [OF f1])
        then show ?thesis
          by (subst play_loop.simps) (simp add: stream_file_spec Suc.prems(1) Pair Inr True)
      qed
    qed
  qed
qed

lemma check_h264_block_files: "files (snd (check_h264_block s)) = files s"
  by (cases "usb s (n_usb s)")
     (auto simp: check_h264_block_def send_cmd_eq Let_def split: option.splits)

lemma play_h264_spec:
  assumes "play_spec n s filepath loop play_cmd play_count = Some R"
  shows "play_h264 s filepath loop play_cmd play_count = Some R"
proof (cases "files s filepath")
  case None
  with assms show ?thesis by (simp add: play_spec_def play_h264_def)
next
  case (Some content)
  show ?thesis
  proof (cases "check_h264_block s")
    case (Pair res s1)
    show ?thesis
    proof (cases res)
      case (Inl e)
      with Pair Some assms show ?thesis by (simp add: play_spec_def play_h264_def)
    next
      case (Inr sz)
      have f1: "files s1 filepath = Some content"
        using check_h264_block_files [of s] Pair Some by simp
      from assms Some Pair Inr obtain r where
        p: "passes_spec n loop s1 play_cmd play_count (chunks_of (h264_buf_len s1) content) = Some r"
        by (auto simp: play_spec_def split: option.splits)
      have "play_loop s1 filepath loop (h264_buf_len s1) play_cmd play_count (buf_idx_of play_cmd) = Some r"
        by (rule play_loop_spec [OF f1 p])
      with assms Some Pair Inr p show ?thesis
        by (simp add: play_spec_def play_h264_def Let_def)
    qed
  qed
qed

lemma io_events_append: "io_events (xs @ ys) = io_events xs @ io_events ys"
  by (simp add: io_events_def)

lemma io_events_poll_events:
  "io_events (poll_events clk dev c u p)
     = map (\<lambda>j. UsbSend (make_header (clk (c + j)) CMD_QUERY_BLOCK None)) [0..<p]"
proof (induction p arbitrary: c u)
  case 0
  show ?case by (simp add: io_events_def)
next
  case (Suc p)
  have "io_events (poll_events clk dev c u (Suc p))
          = UsbSend (make_header (clk c) CMD_QUERY_BLOCK None) # io_events (poll_events clk dev (Suc c) (Suc u) p)"
    by (simp add: io_events_def)
  also have "\<dots> = UsbSend (make_header (clk (c + 0)) CMD_QUERY_BLOCK None)
                  # map (\<lambda>j. UsbSend (make_header (clk (c + Suc j)) CMD_QUERY_BLOCK None)) [0..<p]"
    by (simp add: Suc.IH)
  also have "\<dots> = map (\<lambda>j. UsbSend (make_header (clk (c + j)) CMD_QUERY_BLOCK None)) [0..<Suc p]"
    by (simp only: map_upt_Suc)
  finally show ?case .
qed

lemma play_spec_once: "play_spec (Suc n) s filepath False play_cmd play_count \<noteq> None"
  by (auto simp: play_spec_def split: option.splits prod.splits sum.splits py_exn.splits)

lemma wait_spec_polls: "n_usb (snd (wait_spec w idx)) = n_usb w + polls_done 200 2 idx (usb w) (n_usb w)"
  by (simp add: wait_spec_def Let_def)

lemma wait_spec_first_ok:
  assumes "k < 200" "\<forall>j<k. poll_continues 2 idx (usb w (n_usb w + j))"
    and "depth_at idx (usb w (n_usb w + k)) = Some e" "e \<le> 2"
  shows "fst (wait_spec w idx) = Inr () \<and> n_usb (snd (wait_spec w idx)) = n_usb w + k + 1"
proof -
  have nc: "\<not> poll_continues 2 idx (usb w (n_usb w + k))"
    by (rule good_not_continues [OF assms(3) assms(4)])
  have p: "polls_done 200 2 idx (usb w) (n_usb w) = Suc k"
    by (rule polls_done_first [OF assms(1) assms(2) nc])
  obtain r where r: "usb w (n_usb w + k) = Resp r"
    using assms(3) by (cases "usb w (n_usb w + k)") (auto simp: depth_at_def)
  show ?thesis by (simp add: wait_spec_def Let_def p poll_result_def r)
qed

lemma chunk_spec_deep:
  "depth_at (slot_offset play_cmd) (usb t (n_usb t)) = Some d \<Longrightarrow> 3 < d \<Longrightarrow>
     chunk_spec t play_cmd play_count chunk
       = wait_spec (chunk_sent t play_cmd play_count chunk) (slot_offset play_cmd)"
  by (cases "usb t (n_usb t)") (auto simp: chunk_spec_def depth_at_def split: if_splits)

lemma chunk_spec_shallow:
  "depth_at (slot_offset play_cmd) (usb t (n_usb t)) = Some d \<Longrightarrow> d \<le> 3 \<Longrightarrow>
     chunk_spec t play_cmd play_count chunk = (Inr (), chunk_sent t play_cmd play_count chunk)"
  by (cases "usb t (n_usb t)") (auto simp: chunk_spec_def depth_at_def split: if_splits)

text \<open>
  C5. A run of \<^verbatim>\<open>play_h264\<close> is the run of the specified streamer \<open>play_spec\<close>, whenever that
  one ends within \<open>n\<close> passes over the file, as it always does within one pass when \<open>loop\<close>
  is not set (with \<open>loop\<close> set a run ends only by an exception, and \<open>n\<close> is then the number
  of the pass in which it is raised): the result, the numbers of clock readings and device
  calls, the stored buffer length, and the buffers sent and the file reads in their order
  are the same (the sleeps are left out of the comparison). In \<open>play_spec\<close> every chunk of every pass goes through
  \<open>chunk_spec\<close>, which tests the depth of the response at \<open>slot_offset play_cmd\<close>: 8 for the
  command 121, 9 for 119 and 10 for 120, which is also the entry of the table of the
  driver. With a depth above 3 at that offset the chunk step goes on with the wait
  \<open>wait_spec\<close> at the same offset, with a depth of at most 3 it is over without a wait. The
  wait calls the device at most 200 times; all it sends are \<^verbatim>\<open>query_block\<close> frames and it
  reads nothing from the file; and when the first \<open>k\<close> answers let it go on and answer \<open>k\<close>
  (below 200) has a depth of at most 2 at the offset, it ends normally after exactly
  \<open>k + 1\<close> polls. The next chunk is read in the state in which the chunk step has ended.
\<close>

theorem play_h264_flow_control:
  "buf_idx_of play_cmd = slot_offset play_cmd
   \<and> slot_offset 121 = 8 \<and> slot_offset 119 = 9 \<and> slot_offset 120 = 10
   \<and> (play_spec n s filepath loop play_cmd play_count \<noteq> None \<longrightarrow>
        map_option io_view (play_h264 s filepath loop play_cmd play_count)
          = map_option io_view (play_spec n s filepath loop play_cmd play_count))
   \<and> play_spec 1 s filepath False play_cmd play_count \<noteq> None
   \<and> (depth_at (slot_offset play_cmd) (usb t (n_usb t)) = Some d \<and> 3 < d \<longrightarrow>
        chunk_spec t play_cmd play_count chunk
          = wait_spec (chunk_sent t play_cmd play_count chunk) (slot_offset play_cmd))
   \<and> (depth_at (slot_offset play_cmd) (usb v (n_usb v)) = Some e \<and> e \<le> 3 \<longrightarrow>
        chunk_spec v play_cmd play_count piece = (Inr (), chunk_sent v play_cmd play_count piece))
   \<and> n_usb (snd (wait_spec w idx)) \<le> n_usb w + 200
   \<and> io_events (events (snd (wait_spec w idx)))
       = io_events (events w)
           @ map (\<lambda>j. UsbSend (make_header (clock w (n_clock w + j)) CMD_QUERY_BLOCK None))
                 [0..<n_usb (snd (wait_spec w idx)) - n_usb w]
   \<and> (k < 200 \<and> (\<forall>j<k. poll_continues 2 idx (usb w (n_usb w + j)))
        \<and> depth_at idx (usb w (n_usb w + k)) = Some g \<and> g \<le> 2 \<longrightarrow>
        fst (wait_spec w idx) = Inr () \<and> n_usb (snd (wait_spec w idx)) = n_usb w + k + 1)"
proof (intro conjI impI)
  show "buf_idx_of play_cmd = slot_offset play_cmd" by (rule slot_offset_eq)
  show "slot_offset 121 = 8" "slot_offset 119 = 9" "slot_offset 120 = 10"
    by (simp_all add: slot_offset_def)
next
  assume "play_spec n s filepath loop play_cmd play_count \<noteq> None"
  then obtain R where R: "play_spec n s filepath loop play_cmd play_count = Some R" by blast
  have "play_h264 s filepath loop play_cmd play_count = Some R"
    by (rule play_h264_spec [OF R])
  with R show "map_option io_view (play_h264 s filepath loop play_cmd play_count)
          = map_option io_view (play_spec n s filepath loop play_cmd play_count)"
    by simp
next
  show "play_spec 1 s filepath False play_cmd play_count \<noteq> None"
    unfolding One_nat_def by (rule play_spec_once)
next
  assume "depth_at (slot_offset play_cmd) (usb t (n_usb t)) = Some d \<and> 3 < d"
  then show "chunk_spec t play_cmd play_count chunk
          = wait_spec (chunk_sent t play_cmd play_count chunk) (slot_offset play_cmd)"
    by (blast intro: chunk_spec_deep)
next
  assume "depth_at (slot_offset play_cmd) (usb v (n_usb v)) = Some e \<and> e \<le> 3"
  then show "chunk_spec v play_cmd play_count piece = (Inr (), chunk_sent v play_cmd play_count piece)"
    by (blast intro: chunk_spec_shallow)
next
  show "n_usb (snd (wait_spec w idx)) \<le> n_usb w + 200"
    by (simp add: wait_spec_polls polls_done_le)
  show "io_events (events (snd (wait_spec w idx)))
       = io_events (events w)
           @ map (\<lambda>j. UsbSend (make_header (clock w (n_clock w + j)) CMD_QUERY_BLOCK None))
                 [0..<n_usb (snd (wait_spec w idx)) - n_usb w]"
    by (simp add: wait_spec_def Let_def io_events_append io_events_poll_events)
next
  assume a: "k < 200 \<and> (\<forall>j<k. poll_continues 2 idx (usb w (n_usb w + j)))
        \<and> depth_at idx (usb w (n_usb w + k)) = Some g \<and> g \<le> 2"
  then have a1: "k < 200" and a2: "\<forall>j<k. poll_continues 2 idx (usb w (n_usb w + j))"
    and a3: "depth_at idx (usb w (n_usb w + k)) = Some g" and a4: "g \<le> 2"
    by blast+
  have "fst (wait_spec w idx) = Inr () \<and> n_usb (snd (wait_spec w idx)) = n_usb w + k + 1"
    by (rule wait_spec_first_ok [OF a1 a2 a3 a4])
  then show "fst (wait_spec w idx) = Inr ()" "n_usb (snd (wait_spec w idx)) = n_usb w + k + 1"
    by blast+
qed

lemma example_chunks: "chunks_of 2 [1, 2, 3 :: byte] = [[1, 2], [3]]"
  by (simp add: chunks_of.simps file_read_def Let_def)

lemma example_polls: "polls_done 200 2 9 example_answers (Suc (Suc 0)) = 2"
  using polls_done_first [of 1 200 2 9 example_answers "Suc (Suc 0)"]
  by (simp add: example_answers_def poll_continues_def depth_at_def nth_append)

lemma example_check:
  "check_h264_block (LCDDevice_init example_files (\<lambda>k. 0) example_answers)
     = (Inr 2, \<lparr>h264_buf_len = 2, files = example_files, clock = \<lambda>k. 0, usb = example_answers,
                n_clock = 1, n_usb = 1, events = [UsbSend (make_header 0 CMD_GET_H264_BLOCK None)]\<rparr>)"
  by (simp add: check_h264_block_def send_cmd_eq LCDDevice_init_def example_answers_def nth_append Let_def)

lemma example_files_clip: "files (LCDDevice_init example_files clk dev) ''clip.h264'' = Some [1, 2, 3]"
  by (simp add: LCDDevice_init_def example_files_def)

lemma example_run:
  "map_option (\<lambda>a. (fst a, n_usb (snd a)))
     (play_spec 1 (LCDDevice_init example_files (\<lambda>k. 0) example_answers) ''clip.h264'' False 119 1)
     = Some (Inr True, 6)"
  by (simp add: play_spec_def example_check example_chunks chunk_spec_def chunk_sent_def slot_offset_def
        depth_at_def wait_spec_def poll_result_def example_polls play_finish_def stop_play_def send_cmd_eq
        example_files_clip example_answers_def nth_append Let_def)

text \<open>
  C5 on the example, streamed once on the slot of the command 119. The device answers the
  first chunk with the depth 5 at offset 9 (and 0 at offset 8), the two polls of the wait
  with the depths 3 and 2, and the second chunk with the depth 2: the run makes six device
  calls (the capacity, two chunks, two polls, \<^verbatim>\<open>stop_play\<close>) and returns \<^verbatim>\<open>True\<close>.
\<close>

theorem play_h264_flow_control_witness:
  "play_spec 1 (LCDDevice_init example_files (\<lambda>k. 0) example_answers) ''clip.h264'' False 119 1 \<noteq> None
   \<and> map_option io_view (play_h264 (LCDDevice_init example_files (\<lambda>k. 0) example_answers) ''clip.h264'' False 119 1)
       = map_option io_view (play_spec 1 (LCDDevice_init example_files (\<lambda>k. 0) example_answers) ''clip.h264'' False 119 1)
   \<and> map_option (\<lambda>a. (fst a, n_usb (snd a))) (play_h264 (LCDDevice_init example_files (\<lambda>k. 0) example_answers) ''clip.h264'' False 119 1)
       = Some (Inr True, 6)
   \<and> depth_at (slot_offset 121) (usb ((LCDDevice_init example_files (\<lambda>k. 0) example_answers)\<lparr>n_usb := 1\<rparr>) (n_usb ((LCDDevice_init example_files (\<lambda>k. 0) example_answers)\<lparr>n_usb := 1\<rparr>))) = Some 0
   \<and> depth_at (slot_offset 119) (usb ((LCDDevice_init example_files (\<lambda>k. 0) example_answers)\<lparr>n_usb := 1\<rparr>) (n_usb ((LCDDevice_init example_files (\<lambda>k. 0) example_answers)\<lparr>n_usb := 1\<rparr>))) = Some 5
   \<and> chunk_spec ((LCDDevice_init example_files (\<lambda>k. 0) example_answers)\<lparr>n_usb := 1\<rparr>) 119 1 [1, 2] = wait_spec (chunk_sent ((LCDDevice_init example_files (\<lambda>k. 0) example_answers)\<lparr>n_usb := 1\<rparr>) 119 1 [1, 2]) (slot_offset 119)
   \<and> poll_continues 2 (slot_offset 119) (usb (chunk_sent ((LCDDevice_init example_files (\<lambda>k. 0) example_answers)\<lparr>n_usb := 1\<rparr>) 119 1 [1, 2]) (n_usb (chunk_sent ((LCDDevice_init example_files (\<lambda>k. 0) example_answers)\<lparr>n_usb := 1\<rparr>) 119 1 [1, 2]) + 0))
   \<and> depth_at (slot_offset 119) (usb (chunk_sent ((LCDDevice_init example_files (\<lambda>k. 0) example_answers)\<lparr>n_usb := 1\<rparr>) 119 1 [1, 2]) (n_usb (chunk_sent ((LCDDevice_init example_files (\<lambda>k. 0) example_answers)\<lparr>n_usb := 1\<rparr>) 119 1 [1, 2]) + 1)) = Some 2
   \<and> fst (wait_spec (chunk_sent ((LCDDevice_init example_files (\<lambda>k. 0) example_answers)\<lparr>n_usb := 1\<rparr>) 119 1 [1, 2]) (slot_offset 119)) = Inr ()
   \<and> n_usb (snd (wait_spec (chunk_sent ((LCDDevice_init example_files (\<lambda>k. 0) example_answers)\<lparr>n_usb := 1\<rparr>) 119 1 [1, 2]) (slot_offset 119))) = n_usb (chunk_sent ((LCDDevice_init example_files (\<lambda>k. 0) example_answers)\<lparr>n_usb := 1\<rparr>) 119 1 [1, 2]) + 1 + 1
   \<and> depth_at (slot_offset 119) (usb ((LCDDevice_init example_files (\<lambda>k. 0) example_answers)\<lparr>n_usb := 4\<rparr>) (n_usb ((LCDDevice_init example_files (\<lambda>k. 0) example_answers)\<lparr>n_usb := 4\<rparr>))) = Some 2
   \<and> chunk_spec ((LCDDevice_init example_files (\<lambda>k. 0) example_answers)\<lparr>n_usb := 4\<rparr>) 119 1 [3] = (Inr (), chunk_sent ((LCDDevice_init example_files (\<lambda>k. 0) example_answers)\<lparr>n_usb := 4\<rparr>) 119 1 [3])"
proof -
  have i: "slot_offset 119 = 9" "slot_offset 121 = 8"
    by (simp_all add: slot_offset_def)
  have run: "map_option (\<lambda>a. (fst a, n_usb (snd a))) (play_spec 1 (LCDDevice_init example_files (\<lambda>k. 0) example_answers) ''clip.h264'' False 119 1)
               = Some (Inr True, 6)"
    by (rule example_run)
  then have h0: "play_spec 1 (LCDDevice_init example_files (\<lambda>k. 0) example_answers) ''clip.h264'' False 119 1 \<noteq> None"
    by auto
  have z: "depth_at (slot_offset 121) (usb ((LCDDevice_init example_files (\<lambda>k. 0) example_answers)\<lparr>n_usb := 1\<rparr>) (n_usb ((LCDDevice_init example_files (\<lambda>k. 0) example_answers)\<lparr>n_usb := 1\<rparr>))) = Some 0"
    by (simp add: i LCDDevice_init_def example_answers_def depth_at_def nth_append)
  have h1: "depth_at (slot_offset 119) (usb ((LCDDevice_init example_files (\<lambda>k. 0) example_answers)\<lparr>n_usb := 1\<rparr>) (n_usb ((LCDDevice_init example_files (\<lambda>k. 0) example_answers)\<lparr>n_usb := 1\<rparr>))) = Some 5 \<and> (3::int) < 5"
    by (simp add: i LCDDevice_init_def example_answers_def depth_at_def nth_append)
  have h2: "depth_at (slot_offset 119) (usb ((LCDDevice_init example_files (\<lambda>k. 0) example_answers)\<lparr>n_usb := 4\<rparr>) (n_usb ((LCDDevice_init example_files (\<lambda>k. 0) example_answers)\<lparr>n_usb := 4\<rparr>))) = Some 2 \<and> (2::int) \<le> 3"
    by (simp add: i LCDDevice_init_def example_answers_def depth_at_def nth_append)
  have c0: "poll_continues 2 (slot_offset 119) (usb (chunk_sent ((LCDDevice_init example_files (\<lambda>k. 0) example_answers)\<lparr>n_usb := 1\<rparr>) 119 1 [1, 2]) (n_usb (chunk_sent ((LCDDevice_init example_files (\<lambda>k. 0) example_answers)\<lparr>n_usb := 1\<rparr>) 119 1 [1, 2]) + 0))"
    by (simp add: i chunk_sent_def LCDDevice_init_def example_answers_def poll_continues_def
          depth_at_def nth_append)
  have g1: "depth_at (slot_offset 119) (usb (chunk_sent ((LCDDevice_init example_files (\<lambda>k. 0) example_answers)\<lparr>n_usb := 1\<rparr>) 119 1 [1, 2]) (n_usb (chunk_sent ((LCDDevice_init example_files (\<lambda>k. 0) example_answers)\<lparr>n_usb := 1\<rparr>) 119 1 [1, 2]) + 1)) = Some 2"
    by (simp add: i chunk_sent_def LCDDevice_init_def example_answers_def depth_at_def nth_append)
  have h3: "(1::nat) < 200
      \<and> (\<forall>j<1. poll_continues 2 (slot_offset 119) (usb (chunk_sent ((LCDDevice_init example_files (\<lambda>k. 0) example_answers)\<lparr>n_usb := 1\<rparr>) 119 1 [1, 2]) (n_usb (chunk_sent ((LCDDevice_init example_files (\<lambda>k. 0) example_answers)\<lparr>n_usb := 1\<rparr>) 119 1 [1, 2]) + j)))
      \<and> depth_at (slot_offset 119) (usb (chunk_sent ((LCDDevice_init example_files (\<lambda>k. 0) example_answers)\<lparr>n_usb := 1\<rparr>) 119 1 [1, 2]) (n_usb (chunk_sent ((LCDDevice_init example_files (\<lambda>k. 0) example_answers)\<lparr>n_usb := 1\<rparr>) 119 1 [1, 2]) + 1)) = Some 2 \<and> (2::int) \<le> 2"
    using c0 g1 by simp
  note inst = play_h264_flow_control [where play_cmd = 119 and play_count = 1 and n = 1
      and s = "(LCDDevice_init example_files (\<lambda>k. 0) example_answers)" and filepath = "''clip.h264''" and loop = False
      and t = "((LCDDevice_init example_files (\<lambda>k. 0) example_answers)\<lparr>n_usb := 1\<rparr>)" and d = 5 and chunk = "[1, 2]"
      and v = "((LCDDevice_init example_files (\<lambda>k. 0) example_answers)\<lparr>n_usb := 4\<rparr>)" and e = 2 and piece = "[3]"
      and w = "(chunk_sent ((LCDDevice_init example_files (\<lambda>k. 0) example_answers)\<lparr>n_usb := 1\<rparr>) 119 1 [1, 2])" and idx = "slot_offset 119" and k = 1 and g = 2]
  have r: "map_option io_view (play_h264 (LCDDevice_init example_files (\<lambda>k. 0) example_answers) ''clip.h264'' False 119 1)
             = map_option io_view (play_spec 1 (LCDDevice_init example_files (\<lambda>k. 0) example_answers) ''clip.h264'' False 119 1)"
    using inst h0 by blast
  have v: "map_option (\<lambda>a. (fst a, n_usb (snd a))) (map_option io_view X)
             = map_option (\<lambda>a. (fst a, n_usb (snd a))) X" for X :: "((py_exn + bool) \<times> lcd) option"
    by (cases X) (simp_all add: io_view_def)
  have "map_option (\<lambda>a. (fst a, n_usb (snd a))) (play_h264 (LCDDevice_init example_files (\<lambda>k. 0) example_answers) ''clip.h264'' False 119 1)
          = map_option (\<lambda>a. (fst a, n_usb (snd a)))
              (map_option io_view (play_h264 (LCDDevice_init example_files (\<lambda>k. 0) example_answers) ''clip.h264'' False 119 1))"
    by (simp only: v)
  also have "\<dots> = map_option (\<lambda>a. (fst a, n_usb (snd a)))
                    (map_option io_view (play_spec 1 (LCDDevice_init example_files (\<lambda>k. 0) example_answers) ''clip.h264'' False 119 1))"
    by (simp only: r)
  also have "\<dots> = map_option (\<lambda>a. (fst a, n_usb (snd a))) (play_spec 1 (LCDDevice_init example_files (\<lambda>k. 0) example_answers) ''clip.h264'' False 119 1)"
    by (simp only: v)
  also have "\<dots> = Some (Inr True, 6)"
    by (rule run)
  finally have n: "map_option (\<lambda>a. (fst a, n_usb (snd a))) (play_h264 (LCDDevice_init example_files (\<lambda>k. 0) example_answers) ''clip.h264'' False 119 1)
                     = Some (Inr True, 6)" .
  from inst h0 h1 h2 h3 c0 g1 z r n show ?thesis by blast
qed

section \<open>Properties of the LED ring controller\<close>

lemma length_led_cell: "length (led_cell leds idx) = 3"
  by (simp add: led_cell_def split: prod.split)

lemma length_led_cells: "length (concat (map (\<lambda>i. led_cell leds (k + i)) [0..<n])) = 3 * n"
  by (induction n) (simp_all add: length_led_cell)

lemma replicate_3_more: "n < 20 \<Longrightarrow> replicate (60 - 3 * n) (0::byte) = [0, 0, 0] @ replicate (60 - 3 * Suc n) 0"
proof -
  assume "n < 20"
  then have "60 - 3 * n = Suc (Suc (Suc (60 - 3 * Suc n)))" by arith
  then show ?thesis by simp
qed

lemma led_step:
  assumes n: "n < 20" and lA: "length A = 4 + 3 * n"
  shows "(if k + n < length leds
          then (case leds ! (k + n) of
                  (r, g, b) \<Rightarrow>
                    (A @ replicate (60 - 3 * n) 0)
                      [4 + n * 3 := word_of_int (r AND 0xFF),
                       4 + n * 3 + 1 := word_of_int (g AND 0xFF),
                       4 + n * 3 + 2 := word_of_int (b AND 0xFF)])
          else A @ replicate (60 - 3 * n) 0)
         = A @ led_cell leds (k + n) @ replicate (60 - 3 * Suc n) 0"
proof -
  have i0: "4 + n * 3 = length A" and i1: "4 + n * 3 + 1 = length A + 1"
    and i2: "4 + n * 3 + 2 = length A + 2"
    using lA by simp_all
  show ?thesis
    unfolding replicate_3_more [OF n] i0 i1 i2
    by (simp add: led_cell_def list_update_append split: prod.split)
qed

lemma led_fold:
  assumes "length hdr = 4"
  shows "n \<le> 20 \<Longrightarrow>
     foldl (\<lambda>p i. if k + i < length leds
                   then (case leds ! (k + i) of
                           (r, g, b) \<Rightarrow>
                             p[4 + i * 3 := word_of_int (r AND 0xFF),
                               4 + i * 3 + 1 := word_of_int (g AND 0xFF),
                               4 + i * 3 + 2 := word_of_int (b AND 0xFF)])
                   else p)
           (hdr @ replicate 60 0) [0..<n]
       = hdr @ concat (map (\<lambda>i. led_cell leds (k + i)) [0..<n]) @ replicate (60 - 3 * n) 0"
proof (induction n)
  case 0
  show ?case by simp
next
  case (Suc n)
  then have n: "n < 20" by simp
  let ?f = "\<lambda>p i. if k + i < length leds
                   then (case leds ! (k + i) of
                           (r, g, b) \<Rightarrow>
                             p[4 + i * 3 := word_of_int (r AND 0xFF),
                               4 + i * 3 + 1 := word_of_int (g AND 0xFF),
                               4 + i * 3 + 2 := word_of_int (b AND 0xFF)])
                   else p"
  let ?A = "hdr @ concat (map (\<lambda>i. led_cell leds (k + i)) [0..<n])"
  have lA: "length ?A = 4 + 3 * n" using assms by (simp add: length_led_cells)
  have IH: "foldl ?f (hdr @ replicate 60 0) [0..<n] = ?A @ replicate (60 - 3 * n) 0"
    using Suc.IH n by simp
  have "foldl ?f (hdr @ replicate 60 0) [0..<Suc n] = ?f (foldl ?f (hdr @ replicate 60 0) [0..<n]) n"
    by (simp only: upt_Suc_append [OF le0] foldl_append foldl.simps)
  also have "\<dots> = ?f (?A @ replicate (60 - 3 * n) 0) n"
    by (simp only: IH)
  also have "\<dots> = ?A @ led_cell leds (k + n) @ replicate (60 - 3 * Suc n) 0"
    by (rule led_step [OF n lA])
  also have "\<dots> = hdr @ concat (map (\<lambda>i. led_cell leds (k + i)) [0..<Suc n]) @ replicate (60 - 3 * Suc n) 0"
    by simp
  finally show ?case .
qed

lemma led_packet_eq:
  "led_packet grp leds =
     [17, of_nat (grp * 20), 0, 0] @ concat (map (\<lambda>i. led_cell leds (grp * 20 + i)) [0..<20])"
proof -
  have "replicate 64 (0::byte) = replicate (4 + 60) 0" by simp
  also have "\<dots> = replicate 4 0 @ replicate 60 0" by (rule replicate_add)
  finally have r: "replicate 64 (0::byte) = [0, 0, 0, 0] @ replicate 60 0"
    by (simp only: replicate4)
  have p0: "(replicate 64 (0::byte))[0 := 17, 1 := of_nat (grp * 20)]
              = [17, of_nat (grp * 20), 0, 0] @ replicate 60 0"
    unfolding r by (simp add: list_update_append)
  have l: "length [17, of_nat (grp * 20), 0, 0 :: byte] = 4" by simp
  show ?thesis
    unfolding led_packet_def Let_def LEDS_PER_GROUP_def p0
    using led_fold [OF l, of 20 "grp * 20" leds] by simp
qed

lemma length_led_packet: "length (led_packet grp leds) = 64"
  by (simp add: led_packet_eq length_led_cells)

lemma led_cell_take: "idx < 60 \<Longrightarrow> led_cell (take 60 leds) idx = led_cell leds idx"
  by (simp add: led_cell_def)

lemma led_packet_take: "grp < 3 \<Longrightarrow> led_packet grp (take 60 leds) = led_packet grp leds"
proof -
  assume g: "grp < 3"
  have "map (\<lambda>i. led_cell (take 60 leds) (grp * 20 + i)) [0..<20]
          = map (\<lambda>i. led_cell leds (grp * 20 + i)) [0..<20]"
  proof (rule map_cong [OF refl])
    fix i assume "i \<in> set [0..<20]"
    then have "grp * 20 + i < 60" using g by simp
    then show "led_cell (take 60 leds) (grp * 20 + i) = led_cell leds (grp * 20 + i)"
      by (rule led_cell_take)
  qed
  then show ?thesis by (simp only: led_packet_eq)
qed

lemma led_send_ok:
  assumes "led_write_ok d (n_write d)" "length pkt = 64"
  shows "led_send d pkt False = (Inr None, d\<lparr>n_write := Suc (n_write d), written := written d @ [pkt]\<rparr>)"
  using assms by (simp add: led_send_def Let_def)

lemma set_leds_groups_take:
  "\<forall>g\<in>set gs. g < 3 \<Longrightarrow> set_leds_groups d (take 60 leds) gs = set_leds_groups d leds gs"
  by (induction gs arbitrary: d) (auto simp: led_packet_take split: prod.splits sum.splits)

lemma set_leds_ok:
  assumes "led_write_ok d (n_write d)" "led_write_ok d (Suc (n_write d))"
    "led_write_ok d (Suc (Suc (n_write d)))"
  shows "set_leds d leds =
           (Inr (), d\<lparr>n_write := n_write d + 3,
                      written := written d @ [led_packet 0 leds, led_packet 1 leds, led_packet 2 leds]\<rparr>)"
proof -
  have u: "[0..<3] = [0, 1, 2]" by (simp add: upt_rec)
  show ?thesis
    unfolding set_leds_def u using assms
    by (simp add: led_send_ok length_led_packet)
qed

lemma led_cell_replicate:
  "idx < n \<Longrightarrow> led_cell (replicate n (r, g, b)) idx
     = [word_of_int (r AND 0xFF), word_of_int (g AND 0xFF), word_of_int (b AND 0xFF)]"
  by (simp add: led_cell_def)

lemma led_packet_uniform:
  assumes "grp < 3"
  shows "led_packet grp (replicate 60 (r, g, b)) =
     [17, of_nat (grp * 20), 0, 0]
       @ concat (replicate 20 [word_of_int (r AND 0xFF), word_of_int (g AND 0xFF), word_of_int (b AND 0xFF)])"
proof -
  have "map (\<lambda>i. led_cell (replicate 60 (r, g, b)) (grp * 20 + i)) [0..<20]
          = map (\<lambda>i. [word_of_int (r AND 0xFF), word_of_int (g AND 0xFF), word_of_int (b AND 0xFF)]) [0..<20]"
  proof (rule map_cong [OF refl])
    fix i assume "i \<in> set [0..<20]"
    then have "grp * 20 + i < 60" using assms by simp
    then show "led_cell (replicate 60 (r, g, b)) (grp * 20 + i)
       = [word_of_int (r AND 0xFF), word_of_int (g AND 0xFF), word_of_int (b AND 0xFF)]"
      by (rule led_cell_replicate)
  qed
  also have "\<dots> = replicate 20 [word_of_int (r AND 0xFF), word_of_int (g AND 0xFF), word_of_int (b AND 0xFF)]"
    by (simp add: map_replicate_const)
  finally show ?thesis by (simp only: led_packet_eq)
qed

lemma concat_replicate_zeros: "concat (replicate n [0, 0, 0]) = replicate (3 * n) (0::byte)"
proof (induction n)
  case 0
  show ?case by simp
next
  case (Suc n)
  have e: "3 * Suc n = Suc (Suc (Suc (3 * n)))" by simp
  show ?case unfolding e by (simp add: Suc.IH)
qed

lemma drop_hdr: "length h = 4 \<Longrightarrow> drop (4 + m) (h @ xs) = drop m xs"
  by simp

lemma led_cells_nth:
  assumes "i < n"
  shows "take 3 (drop (3 * i) (concat (map (\<lambda>j. led_cell leds (k + j)) [0..<n]))) = led_cell leds (k + i)"
proof -
  have "[0..<n] = [0..<i] @ [i..<n]"
    using assms upt_add_eq_append [of 0 i "n - i"] by simp
  also have "[i..<n] = i # [Suc i..<n]"
    using assms by (simp add: upt_conv_Cons)
  finally have "concat (map (\<lambda>j. led_cell leds (k + j)) [0..<n])
      = concat (map (\<lambda>j. led_cell leds (k + j)) [0..<i])
          @ led_cell leds (k + i) @ concat (map (\<lambda>j. led_cell leds (k + j)) [Suc i..<n])"
    by simp
  then show ?thesis
    by (simp add: length_led_cells length_led_cell)
qed

text \<open>
  C7. When the three writes succeed, \<^verbatim>\<open>set_all(r, g, b)\<close> hands exactly three packets to
  the device, in the order of the groups 0, 1, 2. Each has 64 bytes: byte 0 is 17, byte 1
  is 0, 20 or 40 (the group times 20), bytes 2 and 3 are 0, and bytes 4 to 63 are twenty
  times the three colour bytes. The colour regions together are sixty times the three
  colour bytes, which are \<open>r\<close>, \<open>g\<close> and \<open>b\<close> themselves when these are between 0 and 255
  (the code reduces each with \<^verbatim>\<open>& 0xFF\<close>). \<^verbatim>\<open>off()\<close> gives three packets whose colour regions
  are sixty zero bytes each.
\<close>

theorem set_all_packets:
  assumes "led_write_ok d (n_write d) \<and> led_write_ok d (Suc (n_write d))
             \<and> led_write_ok d (Suc (Suc (n_write d)))"
  shows "set_all d r g b =
           (Inr (), d\<lparr>n_write := n_write d + 3,
                      written := written d @
                        [[17, 0, 0, 0] @ concat (replicate 20 [word_of_int (r AND 0xFF), word_of_int (g AND 0xFF), word_of_int (b AND 0xFF)]),
                         [17, 20, 0, 0] @ concat (replicate 20 [word_of_int (r AND 0xFF), word_of_int (g AND 0xFF), word_of_int (b AND 0xFF)]),
                         [17, 40, 0, 0] @ concat (replicate 20 [word_of_int (r AND 0xFF), word_of_int (g AND 0xFF), word_of_int (b AND 0xFF)])]\<rparr>)
         \<and> length ([17, 0, 0, 0 :: byte] @ concat (replicate 20 [word_of_int (r AND 0xFF), word_of_int (g AND 0xFF), word_of_int (b AND 0xFF)])) = 64
         \<and> concat (replicate 20 [word_of_int (r AND 0xFF), word_of_int (g AND 0xFF), word_of_int (b AND 0xFF) :: byte])
             @ concat (replicate 20 [word_of_int (r AND 0xFF), word_of_int (g AND 0xFF), word_of_int (b AND 0xFF)])
             @ concat (replicate 20 [word_of_int (r AND 0xFF), word_of_int (g AND 0xFF), word_of_int (b AND 0xFF)])
             = concat (replicate 60 [word_of_int (r AND 0xFF), word_of_int (g AND 0xFF), word_of_int (b AND 0xFF)])
         \<and> (0 \<le> r \<and> r < 256 \<and> 0 \<le> g \<and> g < 256 \<and> 0 \<le> b \<and> b < 256 \<longrightarrow>
              map uint [word_of_int (r AND 0xFF), word_of_int (g AND 0xFF), word_of_int (b AND 0xFF) :: byte] = [r, g, b])
         \<and> off d =
             (Inr (), d\<lparr>n_write := n_write d + 3,
                        written := written d @
                          [[17, 0, 0, 0] @ replicate 60 0, [17, 20, 0, 0] @ replicate 60 0,
                           [17, 40, 0, 0] @ replicate 60 0]\<rparr>)"
proof (intro conjI impI)
  have ok: "led_write_ok d (n_write d)" "led_write_ok d (Suc (n_write d))"
    "led_write_ok d (Suc (Suc (n_write d)))"
    using assms by blast+
  have p: "led_packet 0 (replicate 60 (x, y, z)) = [17, 0, 0, 0] @ concat (replicate 20 [word_of_int (x AND 0xFF), word_of_int (y AND 0xFF), word_of_int (z AND 0xFF)])"
    "led_packet 1 (replicate 60 (x, y, z)) = [17, 20, 0, 0] @ concat (replicate 20 [word_of_int (x AND 0xFF), word_of_int (y AND 0xFF), word_of_int (z AND 0xFF)])"
    "led_packet 2 (replicate 60 (x, y, z)) = [17, 40, 0, 0] @ concat (replicate 20 [word_of_int (x AND 0xFF), word_of_int (y AND 0xFF), word_of_int (z AND 0xFF)])"
    for x y z
    by (simp_all add: led_packet_uniform)
  show "set_all d r g b =
           (Inr (), d\<lparr>n_write := n_write d + 3,
                      written := written d @
                        [[17, 0, 0, 0] @ concat (replicate 20 [word_of_int (r AND 0xFF), word_of_int (g AND 0xFF), word_of_int (b AND 0xFF)]),
                         [17, 20, 0, 0] @ concat (replicate 20 [word_of_int (r AND 0xFF), word_of_int (g AND 0xFF), word_of_int (b AND 0xFF)]),
                         [17, 40, 0, 0] @ concat (replicate 20 [word_of_int (r AND 0xFF), word_of_int (g AND 0xFF), word_of_int (b AND 0xFF)])]\<rparr>)"
    unfolding set_all_def NUM_LEDS_def set_leds_ok [OF ok] p ..
  have "off d =
          (Inr (), d\<lparr>n_write := n_write d + 3,
                     written := written d @
                       [[17, 0, 0, 0] @ concat (replicate 20 [0, 0, 0]),
                        [17, 20, 0, 0] @ concat (replicate 20 [0, 0, 0]),
                        [17, 40, 0, 0] @ concat (replicate 20 [0, 0, 0])]\<rparr>)"
    unfolding off_def set_all_def NUM_LEDS_def set_leds_ok [OF ok] p by simp
  then show "off d =
             (Inr (), d\<lparr>n_write := n_write d + 3,
                        written := written d @
                          [[17, 0, 0, 0] @ replicate 60 0, [17, 20, 0, 0] @ replicate 60 0,
                           [17, 40, 0, 0] @ replicate 60 0]\<rparr>)"
    by (simp only: concat_replicate_zeros) simp
next
  show "length ([17, 0, 0, 0 :: byte] @ concat (replicate 20 [word_of_int (r AND 0xFF), word_of_int (g AND 0xFF), word_of_int (b AND 0xFF)])) = 64"
    by (simp add: length_concat sum_list_replicate)
next
  have "replicate 60 x = replicate 20 x @ replicate 20 x @ replicate 20 x" for x :: "byte list"
    by (simp add: replicate_add [symmetric])
  then show "concat (replicate 20 [word_of_int (r AND 0xFF), word_of_int (g AND 0xFF), word_of_int (b AND 0xFF) :: byte])
             @ concat (replicate 20 [word_of_int (r AND 0xFF), word_of_int (g AND 0xFF), word_of_int (b AND 0xFF)])
             @ concat (replicate 20 [word_of_int (r AND 0xFF), word_of_int (g AND 0xFF), word_of_int (b AND 0xFF)])
             = concat (replicate 60 [word_of_int (r AND 0xFF), word_of_int (g AND 0xFF), word_of_int (b AND 0xFF)])"
    by simp
next
  assume "0 \<le> r \<and> r < 256 \<and> 0 \<le> g \<and> g < 256 \<and> 0 \<le> b \<and> b < 256"
  then show "map uint [word_of_int (r AND 0xFF), word_of_int (g AND 0xFF), word_of_int (b AND 0xFF) :: byte] = [r, g, b]"
    by (simp add: uint_cmd_byte)
qed

text \<open>C7 for the colour (200, 100, 50) on a device that takes every write.\<close>

theorem set_all_packets_witness:
  "led_write_ok (\<lparr>led_write_ok = \<lambda>k. True, led_resp = \<lambda>k. None, n_write = 0, n_read = 0, written = []\<rparr>) (n_write (\<lparr>led_write_ok = \<lambda>k. True, led_resp = \<lambda>k. None, n_write = 0, n_read = 0, written = []\<rparr>))
   \<and> set_all (\<lparr>led_write_ok = \<lambda>k. True, led_resp = \<lambda>k. None, n_write = 0, n_read = 0, written = []\<rparr>) 200 100 50 =
       (Inr (), \<lparr>led_write_ok = \<lambda>k. True, led_resp = \<lambda>k. None, n_write = 0, n_read = 0, written = []\<rparr>\<lparr>n_write := n_write (\<lparr>led_write_ok = \<lambda>k. True, led_resp = \<lambda>k. None, n_write = 0, n_read = 0, written = []\<rparr>) + 3,
                  written := written (\<lparr>led_write_ok = \<lambda>k. True, led_resp = \<lambda>k. None, n_write = 0, n_read = 0, written = []\<rparr>) @
                    [[17, 0, 0, 0] @ concat (replicate 20 [word_of_int (200 AND 0xFF), word_of_int (100 AND 0xFF), word_of_int (50 AND 0xFF)]),
                     [17, 20, 0, 0] @ concat (replicate 20 [word_of_int (200 AND 0xFF), word_of_int (100 AND 0xFF), word_of_int (50 AND 0xFF)]),
                     [17, 40, 0, 0] @ concat (replicate 20 [word_of_int (200 AND 0xFF), word_of_int (100 AND 0xFF), word_of_int (50 AND 0xFF)])]\<rparr>)
   \<and> map uint [word_of_int (200 AND 0xFF), word_of_int (100 AND 0xFF), word_of_int (50 AND 0xFF) :: byte]
       = [200, 100, 50]"
proof -
  have h: "led_write_ok (\<lparr>led_write_ok = \<lambda>k. True, led_resp = \<lambda>k. None, n_write = 0, n_read = 0, written = []\<rparr>) (n_write (\<lparr>led_write_ok = \<lambda>k. True, led_resp = \<lambda>k. None, n_write = 0, n_read = 0, written = []\<rparr>)) \<and> led_write_ok (\<lparr>led_write_ok = \<lambda>k. True, led_resp = \<lambda>k. None, n_write = 0, n_read = 0, written = []\<rparr>) (Suc (n_write (\<lparr>led_write_ok = \<lambda>k. True, led_resp = \<lambda>k. None, n_write = 0, n_read = 0, written = []\<rparr>)))
             \<and> led_write_ok (\<lparr>led_write_ok = \<lambda>k. True, led_resp = \<lambda>k. None, n_write = 0, n_read = 0, written = []\<rparr>) (Suc (Suc (n_write (\<lparr>led_write_ok = \<lambda>k. True, led_resp = \<lambda>k. None, n_write = 0, n_read = 0, written = []\<rparr>))))"
    by simp
  have c: "(0::int) \<le> 200 \<and> (200::int) < 256 \<and> (0::int) \<le> 100 \<and> (100::int) < 256
             \<and> (0::int) \<le> 50 \<and> (50::int) < 256"
    by simp
  from set_all_packets [OF h, of 200 100 50] h c show ?thesis by blast
qed

text \<open>
  C10. For a list of any length \<^verbatim>\<open>set_leds\<close> does the same as for its first 60 entries.
  When the three writes succeed it hands exactly three packets to the device; every packet
  has 64 bytes: 17, the group times 20, two zeros, and the three colour bytes of each of
  the twenty LEDs of the group. The colour bytes of an LED that the list has no entry for
  are zero.
\<close>

theorem set_leds_first_60:
  "set_leds d leds_rgb = set_leds d (take 60 leds_rgb)
   \<and> (led_write_ok d (n_write d) \<and> led_write_ok d (Suc (n_write d))
        \<and> led_write_ok d (Suc (Suc (n_write d))) \<longrightarrow>
       set_leds d leds_rgb =
         (Inr (), d\<lparr>n_write := n_write d + 3,
                    written := written d @
                      [led_packet 0 leds_rgb, led_packet 1 leds_rgb, led_packet 2 leds_rgb]\<rparr>))
   \<and> length (led_packet grp leds_rgb) = 64
   \<and> led_packet grp leds_rgb =
       [17, of_nat (grp * 20), 0, 0] @ concat (map (\<lambda>i. led_cell leds_rgb (grp * 20 + i)) [0..<20])
   \<and> (i < 20 \<longrightarrow>
        take 3 (drop (4 + 3 * i) (led_packet grp leds_rgb)) = led_cell leds_rgb (grp * 20 + i))
   \<and> (length leds_rgb \<le> idx \<longrightarrow> led_cell leds_rgb idx = [0, 0, 0])"
proof (intro conjI impI)
  have "\<forall>g\<in>set [0..<3]. g < 3" by simp
  then show "set_leds d leds_rgb = set_leds d (take 60 leds_rgb)"
    unfolding set_leds_def by (rule set_leds_groups_take [symmetric])
next
  assume "led_write_ok d (n_write d) \<and> led_write_ok d (Suc (n_write d))
        \<and> led_write_ok d (Suc (Suc (n_write d)))"
  then show "set_leds d leds_rgb =
         (Inr (), d\<lparr>n_write := n_write d + 3,
                    written := written d @
                      [led_packet 0 leds_rgb, led_packet 1 leds_rgb, led_packet 2 leds_rgb]\<rparr>)"
    by (blast intro: set_leds_ok)
next
  show "length (led_packet grp leds_rgb) = 64" by (rule length_led_packet)
  show "led_packet grp leds_rgb =
       [17, of_nat (grp * 20), 0, 0] @ concat (map (\<lambda>i. led_cell leds_rgb (grp * 20 + i)) [0..<20])"
    by (rule led_packet_eq)
next
  assume i: "i < 20"
  have "drop (4 + 3 * i) (led_packet grp leds_rgb)
          = drop (3 * i) (concat (map (\<lambda>j. led_cell leds_rgb (grp * 20 + j)) [0..<20]))"
    unfolding led_packet_eq by (rule drop_hdr) simp
  then show "take 3 (drop (4 + 3 * i) (led_packet grp leds_rgb)) = led_cell leds_rgb (grp * 20 + i)"
    by (simp only: led_cells_nth [OF i])
next
  assume "length leds_rgb \<le> idx"
  then show "led_cell leds_rgb idx = [0, 0, 0]" by (simp add: led_cell_def)
qed

text \<open>
  C10 for a list of one colour on a device that takes every write: LED 1 has no entry, and
  bytes 7 to 9 of the first packet are zero.
\<close>

theorem set_leds_first_60_witness:
  "led_write_ok (\<lparr>led_write_ok = \<lambda>k. True, led_resp = \<lambda>k. None, n_write = 0, n_read = 0, written = []\<rparr>) (n_write (\<lparr>led_write_ok = \<lambda>k. True, led_resp = \<lambda>k. None, n_write = 0, n_read = 0, written = []\<rparr>))
   \<and> set_leds (\<lparr>led_write_ok = \<lambda>k. True, led_resp = \<lambda>k. None, n_write = 0, n_read = 0, written = []\<rparr>) [(1, 2, 3)] =
       (Inr (), \<lparr>led_write_ok = \<lambda>k. True, led_resp = \<lambda>k. None, n_write = 0, n_read = 0, written = []\<rparr>\<lparr>n_write := n_write (\<lparr>led_write_ok = \<lambda>k. True, led_resp = \<lambda>k. None, n_write = 0, n_read = 0, written = []\<rparr>) + 3,
                  written := written (\<lparr>led_write_ok = \<lambda>k. True, led_resp = \<lambda>k. None, n_write = 0, n_read = 0, written = []\<rparr>) @
                    [led_packet 0 [(1, 2, 3)], led_packet 1 [(1, 2, 3)], led_packet 2 [(1, 2, 3)]]\<rparr>)
   \<and> (1::nat) < 20
   \<and> take 3 (drop (4 + 3 * 1) (led_packet 0 [(1, 2, 3)])) = led_cell [(1, 2, 3)] (0 * 20 + 1)
   \<and> length [(1, 2, 3) :: int \<times> int \<times> int] \<le> 0 * 20 + 1
   \<and> led_cell [(1, 2, 3)] (0 * 20 + 1) = [0, 0, 0]"
proof -
  have h: "led_write_ok (\<lparr>led_write_ok = \<lambda>k. True, led_resp = \<lambda>k. None, n_write = 0, n_read = 0, written = []\<rparr>) (n_write (\<lparr>led_write_ok = \<lambda>k. True, led_resp = \<lambda>k. None, n_write = 0, n_read = 0, written = []\<rparr>)) \<and> led_write_ok (\<lparr>led_write_ok = \<lambda>k. True, led_resp = \<lambda>k. None, n_write = 0, n_read = 0, written = []\<rparr>) (Suc (n_write (\<lparr>led_write_ok = \<lambda>k. True, led_resp = \<lambda>k. None, n_write = 0, n_read = 0, written = []\<rparr>)))
             \<and> led_write_ok (\<lparr>led_write_ok = \<lambda>k. True, led_resp = \<lambda>k. None, n_write = 0, n_read = 0, written = []\<rparr>) (Suc (Suc (n_write (\<lparr>led_write_ok = \<lambda>k. True, led_resp = \<lambda>k. None, n_write = 0, n_read = 0, written = []\<rparr>))))"
    by simp
  have i: "(1::nat) < 20" by simp
  have l: "length [(1, 2, 3) :: int \<times> int \<times> int] \<le> 0 * 20 + 1" by simp
  from set_leds_first_60 [of "\<lparr>led_write_ok = \<lambda>k. True, led_resp = \<lambda>k. None, n_write = 0, n_read = 0, written = []\<rparr>" "[(1, 2, 3)]" 0 1 "0 * 20 + 1"] h i l show ?thesis by blast
qed

section \<open>Properties of edge sampling\<close>

lemma py_int_nonneg: "0 \<le> x \<Longrightarrow> py_int x = \<lfloor>x\<rfloor>"
  by (simp add: py_int_def)

lemma py_int_ge0: "0 \<le> x \<Longrightarrow> 0 \<le> py_int x"
  by (simp add: py_int_nonneg)

lemma py_int_less: "0 \<le> x \<Longrightarrow> x < of_int z \<Longrightarrow> py_int x < z"
  by (simp add: py_int_nonneg floor_less_iff)

lemma sum_list_const:
  "(\<And>p. p \<in> set ps \<Longrightarrow> p = c) \<Longrightarrow> sum_list (map f ps) = int (length ps) * f c"
proof (induction ps)
  case Nil
  show ?case by simp
next
  case (Cons p ps)
  have "p = c" by (rule Cons.prems) simp
  moreover have "sum_list (map f ps) = int (length ps) * f c"
    by (rule Cons.IH) (simp add: Cons.prems)
  ultimately show ?case by (simp add: algebra_simps)
qed

lemma avg_const:
  assumes "ps \<noteq> []" "\<And>p. p \<in> set ps \<Longrightarrow> p = c"
  shows "sum_list (map f ps) div int (length ps) = f c"
proof -
  have "0 < int (length ps)" using assms(1) by simp
  then show ?thesis by (simp add: sum_list_const [OF assms(2)])
qed

lemma crop_pixels_nonempty: "x0 < x1 \<Longrightarrow> y0 < y1 \<Longrightarrow> crop_pixels img x0 y0 x1 y1 \<noteq> []"
  by (simp add: crop_pixels_def) (rule exI [of _ y0], simp)

lemma crop_pixels_mem:
  "p \<in> set (crop_pixels img x0 y0 x1 y1) \<Longrightarrow>
     \<exists>x y. x0 \<le> x \<and> x < x1 \<and> y0 \<le> y \<and> y < y1 \<and> p = pixel img x y"
  by (auto simp: crop_pixels_def) blast

lemma block_uniform:
  assumes "x0 < x1" "y0 < y1"
    and "\<And>x y. x0 \<le> x \<Longrightarrow> x < x1 \<Longrightarrow> y0 \<le> y \<Longrightarrow> y < y1 \<Longrightarrow> pixel img x y = c"
  shows "(let pixels = crop_pixels img x0 y0 x1 y1
          in if pixels \<noteq> [] then
               (sum_list (map (\<lambda>p. fst p) pixels) div int (length pixels),
                sum_list (map (\<lambda>p. fst (snd p)) pixels) div int (length pixels),
                sum_list (map (\<lambda>p. snd (snd p)) pixels) div int (length pixels))
             else (0, 0, 0)) = c"
proof -
  have ne: "crop_pixels img x0 y0 x1 y1 \<noteq> []"
    using assms(1,2) by (rule crop_pixels_nonempty)
  have all: "p = c" if "p \<in> set (crop_pixels img x0 y0 x1 y1)" for p
    using crop_pixels_mem [OF that] assms(3) by blast
  show ?thesis
    unfolding Let_def using ne
    by (simp add: avg_const [OF ne all])
qed

lemma center_bounds:
  fixes w h :: int and pos :: rat
  assumes "0 < w" "0 < h" "0 \<le> pos" "pos < of_int (2 * (w + h))"
    and "(if pos < of_int w then (py_int pos, h - 1)
          else if pos < of_int (w + h) then (w - 1, h - 1 - py_int (pos - of_int w))
          else if pos < of_int (2 * w + h) then (w - 1 - py_int (pos - of_int w - of_int h), 0)
          else (0, py_int (pos - of_int (2 * w) - of_int h))) = (cx, cy)"
  shows "cx < w + 4 \<and> cy < h + 4"
proof (cases "pos < of_int w")
  case True
  then have "cx = py_int pos" "cy = h - 1" using assms(5) by simp_all
  moreover have "py_int pos < w" using assms(3) True by (rule py_int_less)
  ultimately show ?thesis by simp
next
  case nw: False
  show ?thesis
  proof (cases "pos < of_int (w + h)")
    case True
    then have c: "cx = w - 1" "cy = h - 1 - py_int (pos - of_int w)" using assms(5) nw by simp_all
    have "0 \<le> py_int (pos - of_int w)" using nw by (intro py_int_ge0) simp
    with c show ?thesis by simp
  next
    case nwh: False
    show ?thesis
    proof (cases "pos < of_int (2 * w + h)")
      case True
      then have c: "cx = w - 1 - py_int (pos - of_int w - of_int h)" "cy = 0"
        using assms(5) nw nwh by simp_all
      have "0 \<le> py_int (pos - of_int w - of_int h)" using nwh by (intro py_int_ge0) simp
      with c assms(2) show ?thesis by simp
    next
      case False
      then have c: "cx = 0" "cy = py_int (pos - of_int (2 * w) - of_int h)"
        using assms(5) nw nwh by simp_all
      have a0: "0 \<le> pos - of_int (2 * w) - of_int h" using False by simp
      have a1: "pos - of_int (2 * w) - of_int h < of_int (h + 4)" using assms(4) by simp
      have "py_int (pos - of_int (2 * w) - of_int h) < h + 4" using a0 a1 by (rule py_int_less)
      with c assms(1) show ?thesis by simp
    qed
  qed
qed

lemma sample_at_uniform:
  assumes w: "0 < img_w img" and h: "0 < img_h img"
    and pos: "0 \<le> of_int i * step" "of_int i * step < of_int (2 * (img_w img + img_h img))"
    and u: "\<And>x y. 0 \<le> x \<Longrightarrow> x < img_w img \<Longrightarrow> 0 \<le> y \<Longrightarrow> y < img_h img \<Longrightarrow> pixel img x y = c"
  shows "sample_at img step i = c"
proof -
  obtain cx cy where cc:
    "(if of_int i * step < of_int (img_w img) then (py_int (of_int i * step), img_h img - 1)
      else if of_int i * step < of_int (img_w img + img_h img)
        then (img_w img - 1, img_h img - 1 - py_int (of_int i * step - of_int (img_w img)))
      else if of_int i * step < of_int (2 * img_w img + img_h img)
        then (img_w img - 1 - py_int (of_int i * step - of_int (img_w img) - of_int (img_h img)), 0)
      else (0, py_int (of_int i * step - of_int (2 * img_w img) - of_int (img_h img)))) = (cx, cy)"
    by (metis surj_pair)
  have b: "cx < img_w img + 4 \<and> cy < img_h img + 4"
    by (rule center_bounds [OF w h pos cc])
  define x0 where "x0 = max 0 (cx - 4)"
  define y0 where "y0 = max 0 (cy - 4)"
  define x1 where "x1 = min (img_w img) (x0 + 8)"
  define y1 where "y1 = min (img_h img) (y0 + 8)"
  have r: "0 \<le> x0" "x0 < x1" "x1 \<le> img_w img" "0 \<le> y0" "y0 < y1" "y1 \<le> img_h img"
    using b w h by (simp_all add: x0_def y0_def x1_def y1_def)
  have blk: "(let pixels = crop_pixels img x0 y0 x1 y1
          in if pixels \<noteq> [] then
               (sum_list (map (\<lambda>p. fst p) pixels) div int (length pixels),
                sum_list (map (\<lambda>p. fst (snd p)) pixels) div int (length pixels),
                sum_list (map (\<lambda>p. snd (snd p)) pixels) div int (length pixels))
             else (0, 0, 0)) = c"
  proof (rule block_uniform)
    show "x0 < x1" "y0 < y1" using r by simp_all
    show "pixel img x y = c" if "x0 \<le> x" "x < x1" "y0 \<le> y" "y < y1" for x y
      using that r by (intro u) simp_all
  qed
  have "sample_at img step i =
          (let pixels = crop_pixels img x0 y0 x1 y1
           in if pixels \<noteq> [] then
               (sum_list (map (\<lambda>p. fst p) pixels) div int (length pixels),
                sum_list (map (\<lambda>p. fst (snd p)) pixels) div int (length pixels),
                sum_list (map (\<lambda>p. snd (snd p)) pixels) div int (length pixels))
             else (0, 0, 0))"
    unfolding sample_at_def Let_def cc x0_def y0_def x1_def y1_def by simp
  then show ?thesis by (simp only: blk)
qed

lemma map_const: "(\<And>x. x \<in> set xs \<Longrightarrow> f x = c) \<Longrightarrow> map f xs = replicate (length xs) c"
  by (induction xs) simp_all

lemma sample_edge_colors_60_uniform:
  assumes "img_w img = 480" "img_h img = 1920"
    and u: "\<And>x y. 0 \<le> x \<Longrightarrow> x < 480 \<Longrightarrow> 0 \<le> y \<Longrightarrow> y < 1920 \<Longrightarrow> pixel img x y = c"
  shows "sample_edge_colors img 60 = Inr (replicate 60 c)"
proof -
  have s: "sample_at img 80 i = c" if "i \<in> set [0..59]" for i
  proof (rule sample_at_uniform)
    show "0 < img_w img" "0 < img_h img" using assms(1,2) by simp_all
    have i: "0 \<le> i" "i \<le> 59" using that by simp_all
    show "0 \<le> of_int i * (80::rat)" using i by simp
    have "of_int i * (80::rat) \<le> of_int 59 * 80" using i by (intro mult_right_mono) simp_all
    then show "of_int i * (80::rat) < of_int (2 * (img_w img + img_h img))"
      unfolding assms(1,2) by simp
    show "pixel img x y = c" if "0 \<le> x" "x < img_w img" "0 \<le> y" "y < img_h img" for x y
      using that assms(1,2) by (intro u) simp_all
  qed
  have "map (sample_at img 80) [0..59] = replicate (length [0..59::int]) c"
    by (rule map_const) (rule s)
  then show ?thesis
    by (simp add: sample_edge_colors_def Let_def assms(1,2))
qed

lemma sample_edge_colors_length:
  "1 \<le> n \<Longrightarrow> (case sample_edge_colors img n of Inl e \<Rightarrow> False | Inr cols \<Rightarrow> int (length cols) = n)"
  by (simp add: sample_edge_colors_def Let_def)

text \<open>
  C8 says that the output always has as many entries as LEDs were asked for. For 0 LEDs
  there is no output: the division \<^verbatim>\<open>perimeter / num_leds\<close> raises \<^verbatim>\<open>ZeroDivisionError\<close>, where
  a list of length 0 would be the empty list.
\<close>

theorem sample_edge_colors_counterexample:
  "sample_edge_colors (uniform_image 480 1920 (10, 20, 30)) 0 = Inl ZeroDivisionError
   \<and> sample_edge_colors (uniform_image 480 1920 (10, 20, 30)) 0 \<noteq> Inr []"
  by (simp add: sample_edge_colors_def)

text \<open>
  C8 as the code has it. On a 480 by 1920 image whose pixels all have the colour \<open>c\<close>,
  \<^verbatim>\<open>sample_edge_colors\<close> with 60 LEDs returns 60 triples, each equal to \<open>c\<close>: the integer
  average over a block of equal pixels is exact. For every number of LEDs from 1 on the
  output has exactly that many entries; for 0 LEDs the function raises
  \<^verbatim>\<open>ZeroDivisionError\<close>.
\<close>

theorem sample_edge_colors_uniform_length:
  "(img_w img = 480 \<and> img_h img = 1920
      \<and> (\<forall>x y. 0 \<le> x \<and> x < 480 \<and> 0 \<le> y \<and> y < 1920 \<longrightarrow> pixel img x y = c) \<longrightarrow>
     sample_edge_colors img 60 = Inr (replicate 60 c))
   \<and> (1 \<le> num_leds \<longrightarrow>
        (case sample_edge_colors im num_leds of
           Inl e \<Rightarrow> False
         | Inr cols \<Rightarrow> int (length cols) = num_leds))
   \<and> sample_edge_colors im 0 = Inl ZeroDivisionError"
proof (intro conjI impI)
  assume a: "img_w img = 480 \<and> img_h img = 1920
      \<and> (\<forall>x y. 0 \<le> x \<and> x < 480 \<and> 0 \<le> y \<and> y < 1920 \<longrightarrow> pixel img x y = c)"
  show "sample_edge_colors img 60 = Inr (replicate 60 c)"
  proof (rule sample_edge_colors_60_uniform)
    show "img_w img = 480" "img_h img = 1920" using a by blast+
    show "pixel img x y = c" if "0 \<le> x" "x < 480" "0 \<le> y" "y < 1920" for x y
      using a that by blast
  qed
next
  assume "1 \<le> num_leds"
  then show "case sample_edge_colors im num_leds of
           Inl e \<Rightarrow> False
         | Inr cols \<Rightarrow> int (length cols) = num_leds"
    by (rule sample_edge_colors_length)
next
  show "sample_edge_colors im 0 = Inl ZeroDivisionError"
    by (simp add: sample_edge_colors_def)
qed

text \<open>C8 on the 480 by 1920 image of the colour (10, 20, 30), with 60 LEDs.\<close>

theorem sample_edge_colors_uniform_length_witness:
  "img_w (uniform_image 480 1920 (10, 20, 30)) = 480 \<and> img_h (uniform_image 480 1920 (10, 20, 30)) = 1920
   \<and> pixel (uniform_image 480 1920 (10, 20, 30)) 0 0 = (10, 20, 30)
   \<and> sample_edge_colors (uniform_image 480 1920 (10, 20, 30)) 60 = Inr (replicate 60 (10, 20, 30))
   \<and> (1::int) \<le> 60
   \<and> (case sample_edge_colors (uniform_image 480 1920 (10, 20, 30)) 60 of
         Inl e \<Rightarrow> False
       | Inr cols \<Rightarrow> int (length cols) = 60)"
proof -
  have h: "img_w (uniform_image 480 1920 (10, 20, 30)) = 480 \<and> img_h (uniform_image 480 1920 (10, 20, 30)) = 1920
      \<and> (\<forall>x y. 0 \<le> x \<and> x < 480 \<and> 0 \<le> y \<and> y < 1920 \<longrightarrow> pixel (uniform_image 480 1920 (10, 20, 30)) x y = (10, 20, 30))"
    by (simp add: uniform_image_def)
  have p: "pixel (uniform_image 480 1920 (10, 20, 30)) 0 0 = (10, 20, 30)"
    by (simp add: uniform_image_def)
  have n: "(1::int) \<le> 60" by simp
  from sample_edge_colors_uniform_length [of "uniform_image 480 1920 (10, 20, 30)" "(10, 20, 30)" 60 "uniform_image 480 1920 (10, 20, 30)"] h p n
  show ?thesis by blast
qed

end
